theory Spec2Isabelle
  imports Main "HOL-Library.Word"
begin

unbundle bit_operations_syntax

section \<open>Data model of package perfect\<close>

text \<open>
  Go's \<^verbatim>\<open>uint\<close> and \<^verbatim>\<open>int\<close> are 64-bit machine integers on the platforms where
  a table of \<open>2 ^ 32\<close> slots can be allocated. \<^verbatim>\<open>uint\<close> is a \<open>64 word\<close>, whose
  \<open>+\<close> and \<open>*\<close> wrap around; the signed field \<^verbatim>\<open>IndexApplied\<close> is a \<open>64 word\<close> read in
  two's complement by \<open>sint\<close>, so that \<open>- idx\<close> wraps at the most negative value as Go's
  unary minus does. \<^verbatim>\<open>type Op int\<close> is only ever compared with its constants and is an
  \<open>int\<close>.
\<close>

type_synonym uint = "64 word"

type_synonym Op = int

definition opUndefined :: Op where "opUndefined = 0"
definition OpAdd :: Op where "OpAdd = 1"
definition OpXor :: Op where "OpXor = 2"
definition OpMul :: Op where "OpMul = 3"

record Coef =
  IndexApplied :: "64 word"
  Value :: uint
  MaxValue :: uint
  StartValue :: uint
  OnlyPow2 :: bool
  Op :: Op

record HashSequential =
  LenCoef :: Coef
  Coefs :: "Coef list"

record HashFinder =
  hashmap :: "uint list"

text \<open>Run-time panics: an index out of range (tagged with the indexed object) and the
  explicit \<^verbatim>\<open>panic("unsupported operation")\<close> of \<^verbatim>\<open>Coef.Apply\<close>.\<close>

datatype place = InString | InCoefs | InHashmap

datatype fault = IndexOutOfRange place | PanicUnsupportedOperation

text \<open>The error values that the package returns.\<close>

datatype error =
    ErrNoCoefficientsFound
  | ErrTableSizeBits
  | ErrZeroInputs
  | ErrDefaultMax

section \<open>Coefficients\<close>

definition Coef_init :: "Coef \<Rightarrow> Coef" where
  "Coef_init c =
     (let c = (if StartValue c = 0 then c\<lparr>Value := 1\<rparr> else c\<lparr>Value := StartValue c\<rparr>)
      in if Op c = 0 then c\<lparr>Op := OpAdd\<rparr> else c)"

definition Coef_Increment :: "Coef \<Rightarrow> Coef" where
  "Coef_Increment c =
     (if OnlyPow2 c then c\<lparr>Value := Value c * 2\<rparr> else c\<lparr>Value := Value c + 1\<rparr>)"

definition Coef_Saturated :: "Coef \<Rightarrow> bool" where
  "Coef_Saturated c \<longleftrightarrow> Value c \<ge> MaxValue c"

definition Coef_config :: "Coef \<Rightarrow> uint \<Rightarrow> error option \<times> Coef" where
  "Coef_config coef defaultMax =
     (let coef = Coef_init coef in
      if MaxValue coef = 0 then
        (if defaultMax \<le> 0 then (Some ErrDefaultMax, coef)
         else (None, coef\<lparr>MaxValue := defaultMax\<rparr>))
      else (None, coef))"

text \<open>\<^verbatim>\<open>Coef.Apply\<close>. The two guarded byte reads are checked against the string's bounds as
  the Go run time does; \<open>len(kw)\<close> is never negative, so \<open>len(kw) + idx\<close> does not overflow
  when \<open>idx < 0\<close>.\<close>

definition Coef_Apply :: "Coef \<Rightarrow> uint \<Rightarrow> string \<Rightarrow> fault + uint" where
  "Coef_Apply coef h kw =
     (let idx = IndexApplied coef; n = int (length kw) in
      case (if sint idx < 0 \<and> sint (- idx) \<le> n then
              (let j = n + sint idx in
               if 0 \<le> j \<and> j < n then Inr (of_char (kw ! nat j) * Value coef)
               else Inl (IndexOutOfRange InString))
            else if 0 \<le> sint idx \<and> sint idx < n then
              Inr (of_char (kw ! nat (sint idx)) * Value coef)
            else Inr 0) of
        Inl f \<Rightarrow> Inl f
      | Inr a \<Rightarrow>
          if Op coef = OpAdd then Inr (h + a)
          else if Op coef = OpXor then Inr (h XOR a)
          else if Op coef = OpMul then Inr (h * a)
          else Inl PanicUnsupportedOperation)"

section \<open>The sequential hash family\<close>

fun config_coefs :: "Coef list \<Rightarrow> uint \<Rightarrow> error option \<times> Coef list" where
  "config_coefs [] defaultMax = (None, [])"
| "config_coefs (c # cs) defaultMax =
     (case Coef_config c defaultMax of
        (Some err, c') \<Rightarrow> (Some err, c' # cs)
      | (None, c') \<Rightarrow>
          (case config_coefs cs defaultMax of (err, cs') \<Rightarrow> (err, c' # cs')))"

definition HashSequential_ConfigCoefs ::
  "HashSequential \<Rightarrow> uint \<Rightarrow> error option \<times> HashSequential" where
  "HashSequential_ConfigCoefs hs defaultMax =
     (case config_coefs (Coefs hs) defaultMax of
        (Some err, coefs) \<Rightarrow> (Some err, hs\<lparr>Coefs := coefs\<rparr>)
      | (None, coefs) \<Rightarrow>
          (case Coef_config (LenCoef hs) defaultMax of
             (err, lc) \<Rightarrow> (err, hs\<lparr>Coefs := coefs, LenCoef := lc\<rparr>)))"

fun apply_coefs :: "Coef list \<Rightarrow> uint \<Rightarrow> string \<Rightarrow> fault + uint" where
  "apply_coefs [] h kw = Inr h"
| "apply_coefs (c # cs) h kw =
     (case Coef_Apply c h kw of Inl f \<Rightarrow> Inl f | Inr h' \<Rightarrow> apply_coefs cs h' kw)"

definition HashSequential_Hash :: "HashSequential \<Rightarrow> string \<Rightarrow> fault + uint" where
  "HashSequential_Hash hs dataToHash =
     apply_coefs (Coefs hs) (of_nat (length dataToHash) * Value (LenCoef hs)) dataToHash"

text \<open>The carry loop of \<^verbatim>\<open>HashSequential.Increment\<close>, with its index \<open>i\<close>.\<close>

function carry_loop :: "nat \<Rightarrow> Coef list \<Rightarrow> Coef list" where
  "carry_loop i coefs =
     (if Coef_Saturated (coefs ! i) \<and> int i < int (length coefs) - 1
      then carry_loop (i + 1)
             (coefs[i := Coef_init (coefs ! i), i + 1 := Coef_Increment (coefs ! (i + 1))])
      else coefs)"
  by pat_completeness auto
termination
  by (relation "measure (\<lambda>(i, coefs). length coefs - i)") auto

declare carry_loop.simps [simp del]

definition HashSequential_Increment :: "HashSequential \<Rightarrow> fault + (bool \<times> HashSequential)" where
  "HashSequential_Increment hs =
     (let coefs = Coefs hs in
      if length coefs = 0 then Inl (IndexOutOfRange InCoefs)
      else
        let coefs = carry_loop 0 (coefs[0 := Coef_Increment (coefs ! 0)]);
            lastIsSaturated = Coef_Saturated (coefs ! (length coefs - 1));
            coefs = (if lastIsSaturated
                     then coefs[length coefs - 1 := Coef_init (coefs ! (length coefs - 1))]
                     else coefs);
            lc = (if lastIsSaturated then Coef_Increment (LenCoef hs) else LenCoef hs)
        in Inr (Value lc > MaxValue lc, hs\<lparr>LenCoef := lc, Coefs := coefs\<rparr>))"

section \<open>The search engine\<close>

text \<open>One attempt: the loop over the inputs, on the cleared table (\<open>msk\<close> and \<open>tbl\<close> are
  the source's locals \<^verbatim>\<open>mask\<close> and \<^verbatim>\<open>hashmap\<close>). The read \<^verbatim>\<open>hashmap[h]\<close> is
  bounds-checked as in Go.\<close>

fun attempt ::
  "('s \<Rightarrow> string \<Rightarrow> fault + uint) \<Rightarrow> 's \<Rightarrow> uint \<Rightarrow> uint list \<Rightarrow> string list
     \<Rightarrow> fault + (bool \<times> uint list)" where
  "attempt hash hasher msk tbl [] = Inr (True, tbl)"
| "attempt hash hasher msk tbl (kw # kws) =
     (case hash hasher kw of
        Inl f \<Rightarrow> Inl f
      | Inr hv \<Rightarrow>
          (let h = hv AND msk in
           if unat h < length tbl then
             (let tok = tbl ! unat h in
              if tok \<noteq> 0 then Inr (False, tbl)
              else attempt hash hasher msk (tbl[unat h := 1]) kws)
           else Inl (IndexOutOfRange InHashmap)))"

text \<open>The attempt loop of \<^verbatim>\<open>Search\<close>. The hasher is the interface \<^verbatim>\<open>Hash\<close>: a state
  with its two methods, of which \<^verbatim>\<open>Hash\<close> only reads the state (as that of
  \<^verbatim>\<open>HashSequential\<close> does) and \<^verbatim>\<open>Increment\<close> returns the new one. The loop has no bound
  of its own, so it is a partial function: \<open>None\<close> is a search that never returns. The
  argument \<open>currentAttempt\<close> is the number of attempts made before, \<open>+ 1\<close> is the
  \<^verbatim>\<open>currentAttempt++\<close> that opens the loop body; this counter is taken as an unbounded
  integer (a Go \<^verbatim>\<open>int\<close> wraps only after \<open>2 ^ 63\<close> attempts). \<^verbatim>\<open>clear(hashmap)\<close> makes
  every attempt start on a table of \<open>tblsz\<close> zeros, so what \<^verbatim>\<open>slices.Grow\<close> left in the
  table is never read. The result carries the attempt count, the error, the scratch
  table and the hasher as \<^verbatim>\<open>Search\<close> leaves them; a panic (\<open>Inl\<close>) ends the call.\<close>

partial_function (option) attempt_loop ::
  "('s \<Rightarrow> string \<Rightarrow> fault + uint) \<Rightarrow> ('s \<Rightarrow> fault + (bool \<times> 's)) \<Rightarrow> uint \<Rightarrow> nat
     \<Rightarrow> string list \<Rightarrow> 's \<Rightarrow> int
     \<Rightarrow> (fault + (int \<times> error option \<times> HashFinder \<times> 's)) option" where
  "attempt_loop hash increment msk tblsz inputs hasher currentAttempt =
     (case attempt hash hasher msk (replicate tblsz 0) inputs of
        Inl f \<Rightarrow> Some (Inl f)
      | Inr (attemptSuccess, hashmap') \<Rightarrow>
          if attemptSuccess
          then Some (Inr (currentAttempt + 1, None, \<lparr>hashmap = hashmap'\<rparr>, hasher))
          else
            (case increment hasher of
               Inl f \<Rightarrow> Some (Inl f)
             | Inr (cannotContinue, hasher') \<Rightarrow>
                 if cannotContinue
                 then Some (Inr (currentAttempt + 1, Some ErrNoCoefficientsFound,
                                 \<lparr>hashmap = hashmap'\<rparr>, hasher'))
                 else attempt_loop hash increment msk tblsz inputs hasher'
                        (currentAttempt + 1)))"

text \<open>\<^verbatim>\<open>HashFinder.Search\<close>, for any hasher. \<^verbatim>\<open>tblsz := 1 << tableSizeBits\<close> is
  \<open>2 ^ tableSizeBits\<close> for the accepted values, up to \<open>2 ^ 32\<close>.\<close>

definition HashFinder_Search ::
  "('s \<Rightarrow> string \<Rightarrow> fault + uint) \<Rightarrow> ('s \<Rightarrow> fault + (bool \<times> 's)) \<Rightarrow> HashFinder \<Rightarrow> 's
     \<Rightarrow> int \<Rightarrow> string list \<Rightarrow> (fault + (int \<times> error option \<times> HashFinder \<times> 's)) option" where
  "HashFinder_Search hash increment phf hasher tableSizeBits inputs =
     (if tableSizeBits \<le> 0 \<or> tableSizeBits > 32 then
        Some (Inr (0, Some ErrTableSizeBits, phf, hasher))
      else if length inputs = 0 then
        Some (Inr (0, Some ErrZeroInputs, phf, hasher))
      else
        let tblsz = (2 :: nat) ^ nat tableSizeBits;
            msk = (of_nat tblsz :: uint) - 1
        in attempt_loop hash increment msk tblsz inputs hasher 0)"

text \<open>\<^verbatim>\<open>Search\<close> on the sequential family.\<close>

definition Search ::
  "HashFinder \<Rightarrow> HashSequential \<Rightarrow> int \<Rightarrow> string list
     \<Rightarrow> (fault + (int \<times> error option \<times> HashFinder \<times> HashSequential)) option" where
  "Search phf hs tableSizeBits inputs =
     HashFinder_Search HashSequential_Hash HashSequential_Increment phf hs tableSizeBits inputs"

declare attempt_loop.simps [code]

section \<open>Notions used to state the properties\<close>

text \<open>The hasher after \<open>k\<close> calls of its \<^verbatim>\<open>Increment\<close>, none of which faulted or
  reported exhaustion: the configuration that attempt \<open>k + 1\<close> of a search tests.\<close>

fun advance :: "('s \<Rightarrow> fault + (bool \<times> 's)) \<Rightarrow> nat \<Rightarrow> 's \<Rightarrow> 's option" where
  "advance increment 0 hasher = Some hasher"
| "advance increment (Suc k) hasher =
     (case increment hasher of
        Inr (False, hasher') \<Rightarrow> advance increment k hasher'
      | _ \<Rightarrow> None)"

text \<open>The slot of a key: \<^verbatim>\<open>hasher.Hash(kw) & mask\<close>, as the attempt computes it.\<close>

definition slot ::
  "('s \<Rightarrow> string \<Rightarrow> fault + uint) \<Rightarrow> 's \<Rightarrow> uint \<Rightarrow> string \<Rightarrow> fault + nat" where
  "slot hash hasher msk kw =
     (case hash hasher kw of Inl f \<Rightarrow> Inl f | Inr hv \<Rightarrow> Inr (unat (hv AND msk)))"

text \<open>The index into the scratch table for a sequential family and a table of
  \<open>2 ^ tableSizeBits\<close> slots, with the mask \<^verbatim>\<open>uint(tblsz) - 1\<close> of \<^verbatim>\<open>Search\<close>.\<close>

definition table_index :: "HashSequential \<Rightarrow> int \<Rightarrow> string \<Rightarrow> fault + nat" where
  "table_index hs tableSizeBits kw =
     slot HashSequential_Hash hs (of_nat ((2 :: nat) ^ nat tableSizeBits) - 1) kw"

text \<open>What the documentation of \<^verbatim>\<open>Coef\<close> says of a byte index: non-negative from the
  start of the string, negative from its end; and the three operations.\<close>

definition index_in_range :: "int \<Rightarrow> string \<Rightarrow> bool" where
  "index_in_range i s \<longleftrightarrow>
     (0 \<le> i \<and> i < int (length s)) \<or> (i < 0 \<and> - i \<le> int (length s))"

definition byte_at :: "int \<Rightarrow> string \<Rightarrow> char" where
  "byte_at i s = (if i < 0 then s ! nat (int (length s) + i) else s ! nat i)"

definition supported :: "Op \<Rightarrow> bool" where
  "supported opr \<longleftrightarrow> opr = OpAdd \<or> opr = OpXor \<or> opr = OpMul"

definition combine :: "Op \<Rightarrow> uint \<Rightarrow> uint \<Rightarrow> uint" where
  "combine opr h a =
     (if opr = OpAdd then h + a else if opr = OpXor then h XOR a else h * a)"

section \<open>The search space\<close>

text \<open>The value that \<^verbatim>\<open>init\<close> gives a coefficient.\<close>

definition start_value :: "Coef \<Rightarrow> uint" where
  "start_value c = (if StartValue c = 0 then 1 else StartValue c)"

text \<open>The number of doublings after which \<open>v\<close> first reaches \<open>m\<close> (at least one).\<close>

function dbl_steps :: "nat \<Rightarrow> nat \<Rightarrow> nat" where
  "dbl_steps v m = (if v = 0 \<or> m \<le> 2 * v then 1 else Suc (dbl_steps (2 * v) m))"
  by pat_completeness auto
termination
  by (relation "measure (\<lambda>(v, m). m - v)") auto

declare dbl_steps.simps [simp del]

text \<open>The number of advancements (doublings, or additions of one) after which a value
  \<open>v\<close> first reaches \<open>m\<close>; at least one, since a coefficient is tested only after it was
  advanced.\<close>

definition steps_left :: "bool \<Rightarrow> nat \<Rightarrow> nat \<Rightarrow> nat" where
  "steps_left pow2 v m = (if pow2 then dbl_steps v m else max 1 (m - v))"

text \<open>Modelled from the spec: the range size of a coefficient and the size of the search
  space (the method \<^verbatim>\<open>SearchSpace\<close> that the example calls is not among the sources). The
  spec bounds the attempts by \<open>lengthRange * coef1Range * coef2Range * ...\<close> and calls
  search space the number of coefficient-value combinations that the odometer reaches.
  The range size of a coefficient is the number of values that it takes in the odometer:
  a byte-coefficient runs from its start value until it is saturated
  (\<open>Value \<ge> MaxValue\<close>) and is reset, the length coefficient runs until it exceeds its
  \<open>MaxValue\<close>.\<close>

definition Coef_range :: "Coef \<Rightarrow> nat" where
  "Coef_range c = steps_left (OnlyPow2 c) (unat (start_value c)) (unat (MaxValue c))"

definition LenCoef_range :: "Coef \<Rightarrow> nat" where
  "LenCoef_range c = steps_left (OnlyPow2 c) (unat (start_value c)) (unat (MaxValue c) + 1)"

definition search_space_size :: "HashSequential \<Rightarrow> nat" where
  "search_space_size hs = LenCoef_range (LenCoef hs) * prod_list (map Coef_range (Coefs hs))"

text \<open>Modelled from the spec: the size of the inclusive search range from the start
  value to \<open>MaxValue\<close> (1 when the start value lies above \<open>MaxValue\<close>).\<close>

definition inclusive_range :: "Coef \<Rightarrow> nat" where
  "inclusive_range c = unat (MaxValue c) - unat (start_value c) + 1"

section \<open>Notions of the proofs\<close>

text \<open>The value after \<^verbatim>\<open>Coef.Increment\<close> when nothing wraps around.\<close>

definition next_value :: "bool \<Rightarrow> nat \<Rightarrow> nat" where
  "next_value pow2 v = (if pow2 then v * 2 else v + 1)"

text \<open>Values below this bound can be advanced without wrapping around.\<close>

definition wrap_bound :: nat where
  "wrap_bound = 2 ^ 63"

text \<open>No value of the coefficient wraps around.\<close>

definition in_bounds :: "Coef \<Rightarrow> bool" where
  "in_bounds c \<longleftrightarrow> unat (StartValue c) < wrap_bound \<and> unat (MaxValue c) < wrap_bound"

text \<open>A digit of the odometer with limit \<open>m\<close>: its value is on the way from the start
  value to the limit; its position counts the advancements since the start value.\<close>

definition digit_ok :: "nat \<Rightarrow> Coef \<Rightarrow> bool" where
  "digit_ok m c \<longleftrightarrow>
     0 < unat (Value c) \<and> unat (Value c) < wrap_bound \<and>
     steps_left (OnlyPow2 c) (unat (Value c)) m
       \<le> steps_left (OnlyPow2 c) (unat (start_value c)) m"

definition digit_pos :: "nat \<Rightarrow> Coef \<Rightarrow> nat" where
  "digit_pos m c =
     steps_left (OnlyPow2 c) (unat (start_value c)) m
       - steps_left (OnlyPow2 c) (unat (Value c)) m"

section \<open>The odometer\<close>

text \<open>The carry loop by recursion on the coefficients that follow the one just advanced.\<close>

fun carry :: "Coef \<Rightarrow> Coef list \<Rightarrow> Coef list" where
  "carry c [] = [c]"
| "carry c (d # ds) =
     (if Coef_Saturated c then Coef_init c # carry (Coef_Increment d) ds else c # d # ds)"

text \<open>One step of a mixed-radix counter over the byte-coefficients; the flag is the
  carry out of the last one.\<close>

fun odometer_step :: "Coef list \<Rightarrow> Coef list \<times> bool" where
  "odometer_step [] = ([], True)"
| "odometer_step (c # cs) =
     (if Coef_Saturated (Coef_Increment c)
      then (case odometer_step cs of (cs', out) \<Rightarrow> (Coef_init (Coef_Increment c) # cs', out))
      else (Coef_Increment c # cs, False))"

text \<open>The position of the byte-coefficients in the counter, the first coefficient being
  the least significant digit.\<close>

fun odometer_pos :: "Coef list \<Rightarrow> nat" where
  "odometer_pos [] = 0"
| "odometer_pos (c # cs) = digit_pos (unat (MaxValue c)) c + Coef_range c * odometer_pos cs"

definition coefs_ok :: "Coef list \<Rightarrow> bool" where
  "coefs_ok cs \<longleftrightarrow> (\<forall>c \<in> set cs. in_bounds c \<and> digit_ok (unat (MaxValue c)) c)"

text \<open>A family whose digits are all on their way, its position in the whole counter (the
  length coefficient is the most significant digit), and what \<^verbatim>\<open>Hash\<close> needs in order not
  to fault.\<close>

definition family_ok :: "HashSequential \<Rightarrow> bool" where
  "family_ok hs \<longleftrightarrow>
     Coefs hs \<noteq> [] \<and> coefs_ok (Coefs hs) \<and> in_bounds (LenCoef hs) \<and>
     digit_ok (unat (MaxValue (LenCoef hs)) + 1) (LenCoef hs)"

definition family_pos :: "HashSequential \<Rightarrow> nat" where
  "family_pos hs =
     odometer_pos (Coefs hs)
       + prod_list (map Coef_range (Coefs hs))
           * digit_pos (unat (MaxValue (LenCoef hs)) + 1) (LenCoef hs)"

definition hashable :: "HashSequential \<Rightarrow> bool" where
  "hashable hs \<longleftrightarrow>
     (\<forall>c \<in> set (Coefs hs). supported (Op c) \<and> IndexApplied c \<noteq> - (2 ^ 63))"

text \<open>The coefficient values of a family, and everything else in it.\<close>

definition coef_values :: "HashSequential \<Rightarrow> uint list \<times> uint" where
  "coef_values hs = (map Value (Coefs hs), Value (LenCoef hs))"

definition shape :: "Coef \<Rightarrow> Coef" where
  "shape c = c\<lparr>Value := 0\<rparr>"

definition family_shape :: "HashSequential \<Rightarrow> Coef list \<times> Coef" where
  "family_shape hs = (map shape (Coefs hs), shape (LenCoef hs))"

text \<open>The odometer is a plain counter when the last byte-coefficient is not saturated
  between two advancements (a single byte-coefficient never is looked at before it is
  advanced) and the length coefficient has not passed its maximum.\<close>

definition regular :: "HashSequential \<Rightarrow> bool" where
  "regular hs \<longleftrightarrow>
     (length (Coefs hs) = 1 \<or>
        \<not> Coef_Saturated (last (Coefs hs)) \<and>
        \<not> Coef_Saturated (Coef_init (last (Coefs hs)))) \<and>
     Value (LenCoef hs) \<le> MaxValue (LenCoef hs)"

section \<open>Example families\<close>

text \<open>The zero value of \<^verbatim>\<open>Coef\<close>.\<close>

definition coef0 :: Coef where
  "coef0 = \<lparr>IndexApplied = 0, Value = 0, MaxValue = 0, StartValue = 0,
            OnlyPow2 = False, Op = 0\<rparr>"

text \<open>\<^verbatim>\<open>HashSequential{Coefs: []Coef{{}}}\<close> after \<^verbatim>\<open>ConfigCoefs(4)\<close>.\<close>

definition small_family :: HashSequential where
  "small_family =
     \<lparr>LenCoef = coef0\<lparr>Value := 1, MaxValue := 4, Op := OpAdd\<rparr>,
      Coefs = [coef0\<lparr>Value := 1, MaxValue := 4, Op := OpAdd\<rparr>]\<rparr>"

text \<open>A family without byte-coefficients, after \<^verbatim>\<open>ConfigCoefs(4)\<close>.\<close>

definition length_only_family :: HashSequential where
  "length_only_family =
     \<lparr>LenCoef = coef0\<lparr>Value := 1, MaxValue := 4, Op := OpAdd\<rparr>, Coefs = []\<rparr>"

text \<open>A coefficient whose byte index is the most negative \<^verbatim>\<open>int\<close>.\<close>

definition min_index_coef :: Coef where
  "min_index_coef =
     coef0\<lparr>IndexApplied := - (2 ^ 63), Value := 1, MaxValue := 4, Op := OpAdd\<rparr>"

text \<open>\<^verbatim>\<open>HashSequential{LenCoef: Coef{MaxValue: 4}, Coefs: []Coef{{StartValue: 1 << 63,
  MaxValue: math.MaxUint64, OnlyPow2: true}}}\<close>, before and after \<^verbatim>\<open>ConfigCoefs(16)\<close>, and
  after one advancement (the word \<open>- 1\<close> is the largest \<^verbatim>\<open>uint\<close>).\<close>

definition wrapping_family_raw :: HashSequential where
  "wrapping_family_raw =
     \<lparr>LenCoef = coef0\<lparr>MaxValue := 4\<rparr>,
      Coefs = [coef0\<lparr>StartValue := 2 ^ 63, MaxValue := - 1, OnlyPow2 := True\<rparr>]\<rparr>"

definition wrapping_family :: HashSequential where
  "wrapping_family =
     \<lparr>LenCoef = coef0\<lparr>Value := 1, MaxValue := 4, Op := OpAdd\<rparr>,
      Coefs = [coef0\<lparr>Value := 2 ^ 63, StartValue := 2 ^ 63, MaxValue := - 1,
                     OnlyPow2 := True, Op := OpAdd\<rparr>]\<rparr>"

definition wrapped_family :: HashSequential where
  "wrapped_family =
     \<lparr>LenCoef = coef0\<lparr>Value := 1, MaxValue := 4, Op := OpAdd\<rparr>,
      Coefs = [coef0\<lparr>Value := 0, StartValue := 2 ^ 63, MaxValue := - 1,
                     OnlyPow2 := True, Op := OpAdd\<rparr>]\<rparr>"

text \<open>A configured family with an operation that \<^verbatim>\<open>Apply\<close> does not know.\<close>

definition odd_op_family :: HashSequential where
  "odd_op_family =
     \<lparr>LenCoef = coef0\<lparr>Value := 1, MaxValue := 4, Op := OpAdd\<rparr>,
      Coefs = [coef0\<lparr>Value := 1, MaxValue := 4, Op := 7\<rparr>]\<rparr>"

text \<open>A configured family whose last byte-coefficient starts saturated, and one whose
  length coefficient starts above its maximum.\<close>

definition saturated_last_family :: HashSequential where
  "saturated_last_family =
     \<lparr>LenCoef = coef0\<lparr>Value := 1, MaxValue := 4, Op := OpAdd\<rparr>,
      Coefs = [coef0\<lparr>Value := 1, MaxValue := 16, Op := OpAdd\<rparr>,
               coef0\<lparr>Value := 1, MaxValue := 1, Op := OpAdd\<rparr>]\<rparr>"

definition late_length_family :: HashSequential where
  "late_length_family =
     \<lparr>LenCoef = coef0\<lparr>Value := 5, StartValue := 5, MaxValue := 3, Op := OpAdd\<rparr>,
      Coefs = [coef0\<lparr>Value := 1, MaxValue := 16, Op := OpAdd\<rparr>]\<rparr>"

text \<open>What \<^verbatim>\<open>Search\<close> returns to its caller: the attempt count and the error.\<close>

definition returned ::
  "(fault + (int \<times> error option \<times> HashFinder \<times> 's)) option \<Rightarrow> (fault + (int \<times> error option)) option"
  where
  "returned r = map_option (map_sum id (\<lambda>(n, e, phf, hasher). (n, e))) r"

section \<open>The success-probability estimate\<close>

text \<open>Modelled from the spec: \<^verbatim>\<open>SearchSuccessProbability\<close> is called in the example of the
  package and defined in none of its source files at hand. This is the model the spec
  gives for it: \<open>inputCount\<close> keys thrown into \<open>tableSize\<close> slots meet no collision with
  the probability \<open>\<Prod>i<inputCount. (1 - i / tableSize)\<close>, a number of an ordered field.\<close>

definition collision_free_product :: "nat \<Rightarrow> nat \<Rightarrow> 'a :: linordered_field" where
  "collision_free_product tableSize inputCount =
     prod_list (map (\<lambda>i. 1 - of_nat i / of_nat tableSize) [0..<inputCount])"

section \<open>Coefficients: the byte read of Apply\<close>

lemma sint_min_iff: "sint (idx :: 64 word) = - (2 ^ 63) \<longleftrightarrow> idx = - (2 ^ 63)"
proof
  assume "sint idx = - (2 ^ 63)"
  then have "word_of_int (sint idx) = (word_of_int (- (2 ^ 63)) :: 64 word)" by simp
  then show "idx = - (2 ^ 63)" by simp
next
  assume "idx = - (2 ^ 63)"
  then show "sint idx = - (2 ^ 63)" by simp
qed

lemma sint_neg:
  assumes "idx \<noteq> - (2 ^ 63)"
  shows "sint (- idx) = - sint (idx :: 64 word)"
proof -
  have "- (2 ^ 63) \<le> sint idx" "sint idx < 2 ^ 63"
    using sint_ge [of idx] sint_lt [of idx] by simp_all
  moreover have "sint idx \<noteq> - (2 ^ 63)"
    using assms sint_min_iff [of idx] by blast
  ultimately have "- (2 ^ 63) \<le> - sint idx \<and> - sint idx < 2 ^ 63" by linarith
  then show ?thesis
    by (simp add: sint_word_minus signed_take_bit_int_eq_self)
qed

text \<open>For every index but the most negative one, \<^verbatim>\<open>Apply\<close> is the documented function: a
  byte that is out of range contributes zero, one in range contributes
  \<open>byte * value\<close>, and no read faults.\<close>

lemma Coef_Apply_eq:
  assumes "IndexApplied c \<noteq> - (2 ^ 63)" and "supported (Op c)"
  shows "Coef_Apply c h kw =
     Inr (combine (Op c) h
        (if index_in_range (sint (IndexApplied c)) kw
         then of_char (byte_at (sint (IndexApplied c)) kw) * Value c else 0))"
  using assms
  by (auto simp add: Coef_Apply_def Let_def sint_neg index_in_range_def byte_at_def
      combine_def supported_def)



lemma apply_coefs_total:
  "\<forall>c \<in> set cs. IndexApplied c \<noteq> - (2 ^ 63) \<and> supported (Op c) \<Longrightarrow>
   \<exists>v. apply_coefs cs h kw = Inr v"
  by (induction cs arbitrary: h) (auto simp add: Coef_Apply_eq)

lemma HashSequential_Hash_total:
  "\<forall>c \<in> set (Coefs hs). IndexApplied c \<noteq> - (2 ^ 63) \<and> supported (Op c) \<Longrightarrow>
   \<exists>v. HashSequential_Hash hs kw = Inr v"
  by (simp add: HashSequential_Hash_def apply_coefs_total)



text \<open>
  C8. The claim: \<^verbatim>\<open>Coef.Apply\<close> with an index that is out of range for the string (among
  them every negative index with \<open>- index > len(s)\<close>) contributes zero instead of
  erroring. At the most negative index the negation in the guard \<^verbatim>\<open>-idx <= len(kw)\<close>
  wraps around, the guard holds, and the read \<^verbatim>\<open>kw[len(kw)+idx]\<close> is out of range: the
  call faults, for every running hash and every value of the coefficient.
\<close>

theorem Coef_Apply_min_index_faults:
  "Coef_Apply (c\<lparr>IndexApplied := - (2 ^ 63), Op := OpAdd\<rparr>) h ''a''
     = Inl (IndexOutOfRange InString)"
  by (simp add: Coef_Apply_def Let_def)

text \<open>
  C10. The claim: \<^verbatim>\<open>HashSequential.Hash\<close> is total on every string, the empty one
  included, for every family whose operations are supported. A family with a coefficient
  at the most negative index faults on the empty string and on a one-byte string alike.
\<close>

theorem Hash_min_index_faults:
  "HashSequential_Hash (hs\<lparr>Coefs := [min_index_coef]\<rparr>) [] = Inl (IndexOutOfRange InString)
   \<and> HashSequential_Hash (hs\<lparr>Coefs := [min_index_coef]\<rparr>) ''a''
       = Inl (IndexOutOfRange InString)
   \<and> supported (Op min_index_coef)"
  by (simp add: HashSequential_Hash_def Coef_Apply_def Let_def min_index_coef_def coef0_def
      supported_def OpAdd_def)

section \<open>One attempt\<close>



text \<open>An attempt that succeeds has placed every key in a slot of its own, and each of
  these slots was free before.\<close>

lemma attempt_success:
  "attempt hash st msk tbl kws = Inr (True, tbl') \<Longrightarrow>
   distinct (map (slot hash st msk) kws) \<and>
   (\<forall>kw \<in> set kws. \<exists>i. slot hash st msk kw = Inr i \<and> i < length tbl \<and> tbl ! i = 0)"
proof (induction kws arbitrary: tbl)
  case Nil
  then show ?case by simp
next
  case (Cons kw kws)
  from Cons.prems obtain hv where hv: "hash st kw = Inr hv"
    by (auto split: sum.splits)
  let ?h = "unat (hv AND msk)"
  from Cons.prems hv have h: "?h < length tbl" "tbl ! ?h = 0"
    and rest: "attempt hash st msk (tbl[?h := 1]) kws = Inr (True, tbl')"
    by (auto simp add: Let_def split: if_splits)
  from Cons.IH [OF rest]
  have d: "distinct (map (slot hash st msk) kws)"
    and z: "\<forall>kw' \<in> set kws. \<exists>i. slot hash st msk kw' = Inr i \<and> i < length tbl
              \<and> (tbl[?h := 1]) ! i = 0"
    by simp_all
  have s: "slot hash st msk kw = Inr ?h"
    using hv by (simp add: slot_def)
  have "slot hash st msk kw \<notin> set (map (slot hash st msk) kws)"
  proof
    assume "slot hash st msk kw \<in> set (map (slot hash st msk) kws)"
    then obtain kw' where k: "kw' \<in> set kws" "slot hash st msk kw' = Inr ?h"
      using s by auto
    with z have "(tbl[?h := 1]) ! ?h = 0" by fastforce
    with h show False by simp
  qed
  moreover have "\<forall>kw' \<in> set kws. \<exists>i. slot hash st msk kw' = Inr i \<and> i < length tbl
                   \<and> tbl ! i = 0"
  proof
    fix kw'
    assume "kw' \<in> set kws"
    with z obtain i where i: "slot hash st msk kw' = Inr i" "i < length tbl"
        "(tbl[?h := 1]) ! i = 0"
      by blast
    with h have "i \<noteq> ?h" by auto
    with i show "\<exists>i. slot hash st msk kw' = Inr i \<and> i < length tbl \<and> tbl ! i = 0"
      by auto
  qed
  ultimately show ?case using d s h by simp
qed

text \<open>Keys that are not pairwise distinct never all find a free slot.\<close>

lemma attempt_duplicate:
  assumes "\<not> distinct kws"
  shows "attempt hash st msk tbl kws \<noteq> Inr (True, tbl')"
proof
  assume "attempt hash st msk tbl kws = Inr (True, tbl')"
  then have "distinct (map (slot hash st msk) kws)"
    by (simp add: attempt_success)
  then have "distinct kws"
    by (simp add: distinct_map)
  with assms show False by simp
qed





text \<open>With a hasher that does not fault and a mask that keeps every index inside the
  table, an attempt returns.\<close>

lemma attempt_returns:
  assumes "\<forall>hv. unat (hv AND msk) < length tbl"
    and "\<forall>kw. \<exists>v. hash st kw = Inr v"
  shows "\<exists>ok tbl'. attempt hash st msk tbl kws = Inr (ok, tbl')"
  using assms(1)
proof (induction kws arbitrary: tbl)
  case Nil
  then show ?case by auto
next
  case (Cons kw kws)
  from assms(2) obtain hv where hv: "hash st kw = Inr hv" by blast
  let ?h = "unat (hv AND msk)"
  have "\<forall>hv. unat (hv AND msk) < length (tbl[?h := 1])"
    using Cons.prems by simp
  from Cons.IH [OF this] hv Cons.prems show ?case
    by (auto simp add: Let_def)
qed

lemma mask_index_less:
  assumes "0 < b" and "b \<le> 32"
  shows "unat (hv AND ((of_nat ((2::nat) ^ nat b) :: uint) - 1)) < 2 ^ nat b"
proof -
  have m: "(of_nat ((2::nat) ^ nat b) :: uint) - 1 = mask (nat b)"
    by (simp add: mask_eq_exp_minus_1)
  have "unat (hv AND mask (nat b)) = take_bit (nat b) (unat hv)"
    by (simp flip: take_bit_eq_mask add: unsigned_take_bit_eq)
  then show ?thesis
    unfolding m by simp
qed

section \<open>The attempt loop\<close>

lemmas attempt_loop_induct =
  attempt_loop.raw_induct [rotated 1, consumes 1, case_names step]

text \<open>A search that returns success has tested the configuration it returns, in the
  attempt it reports, after one advancement for each earlier attempt, each of which
  found a collision.\<close>

lemma attempt_loop_success:
  assumes "attempt_loop hash increment msk tblsz inputs st k = Some y"
  shows "\<forall>n phf' st'. y = Inr (n, None, phf', st') \<longrightarrow>
     (\<exists>j. n = k + int j + 1 \<and> advance increment j st = Some st' \<and>
        attempt hash st' msk (replicate tblsz 0) inputs = Inr (True, hashmap phf') \<and>
        (\<forall>i<j. \<exists>si t. advance increment i st = Some si \<and>
            attempt hash si msk (replicate tblsz 0) inputs = Inr (False, t)))"
  using assms
proof (induction hash increment msk tblsz inputs st k y rule: attempt_loop_induct)
  case (step loop hash increment msk tblsz inputs st k y)
  show ?case
  proof (intro allI impI)
    fix n phf' st'
    assume y: "y = Inr (n, None, phf', st')"
    show "\<exists>j. n = k + int j + 1 \<and> advance increment j st = Some st' \<and>
        attempt hash st' msk (replicate tblsz 0) inputs = Inr (True, hashmap phf') \<and>
        (\<forall>i<j. \<exists>si t. advance increment i st = Some si \<and>
            attempt hash si msk (replicate tblsz 0) inputs = Inr (False, t))"
    proof (cases "attempt hash st msk (replicate tblsz 0) inputs")
      case (Inl f)
      with step(2) y show ?thesis by simp
    next
      case (Inr r)
      obtain ok tbl where r: "r = (ok, tbl)" by (cases r)
      show ?thesis
      proof (cases ok)
        case True
        with step(2) y Inr r have "n = k + 1" "st' = st" "hashmap phf' = tbl" by auto
        with Inr r True show ?thesis by (intro exI [of _ 0]) simp
      next
        case False
        note nok = this
        show ?thesis
        proof (cases "increment st")
          case (Inl f)
          with step(2) y Inr r nok show ?thesis by simp
        next
          case inc: (Inr q)
          obtain dn st1 where q: "q = (dn, st1)" by (cases q)
          show ?thesis
          proof (cases dn)
            case True
            with step(2) y Inr r nok inc q show ?thesis by simp
          next
            case False
            with step(2) y Inr r nok inc q
            have "loop hash increment msk tblsz inputs st1 (k + 1) = Some y" by simp
            from step(1) [OF this] y obtain j where
              j: "n = k + 1 + int j + 1" "advance increment j st1 = Some st'"
                 "attempt hash st' msk (replicate tblsz 0) inputs = Inr (True, hashmap phf')"
                 "\<forall>i<j. \<exists>si t. advance increment i st1 = Some si \<and>
                     attempt hash si msk (replicate tblsz 0) inputs = Inr (False, t)"
              by blast
            have adv: "\<And>i. advance increment (Suc i) st = advance increment i st1"
              using inc q False by simp
            have "\<forall>i<Suc j. \<exists>si t. advance increment i st = Some si \<and>
                     attempt hash si msk (replicate tblsz 0) inputs = Inr (False, t)"
            proof (intro allI impI)
              fix i
              assume "i < Suc j"
              show "\<exists>si t. advance increment i st = Some si \<and>
                     attempt hash si msk (replicate tblsz 0) inputs = Inr (False, t)"
              proof (cases i)
                case 0
                then show ?thesis using Inr r nok by simp
              next
                case (Suc i')
                with \<open>i < Suc j\<close> j(4) adv show ?thesis by simp
              qed
            qed
            with j adv show ?thesis by (intro exI [of _ "Suc j"]) simp
          qed
        qed
      qed
    qed
  qed
qed


section \<open>Search: success, preconditions, table bounds\<close>

lemmas eval_defs =
  Search_def HashFinder_Search_def attempt_loop.simps HashSequential_Hash_def
  Coef_Apply_def HashSequential_Increment_def carry_loop.simps Coef_Increment_def
  Coef_Saturated_def Coef_init_def OpAdd_def OpXor_def OpMul_def coef0_def Let_def

text \<open>
  C1. Whenever \<^verbatim>\<open>Search\<close> returns a nil error, the arguments were valid, the family it
  leaves behind hashes every input without fault to an index of its own
  (\<open>Hash(kw) & (2 ^ tableSizeBits - 1)\<close>), the returned count \<open>n\<close> is the number of the
  attempt that succeeded: the family at return is the starting family advanced
  \<open>n - 1\<close> times, once after each earlier attempt, all of which met a collision, and
  it is the configuration that the successful attempt tested.
\<close>

theorem Search_success_is_perfect_hash:
  assumes "Search phf hs tableSizeBits inputs = Some (Inr (n, None, phf', hs'))"
  shows "0 < tableSizeBits \<and> tableSizeBits \<le> 32 \<and> inputs \<noteq> []
     \<and> (\<forall>kw \<in> set inputs. \<exists>i. table_index hs' tableSizeBits kw = Inr i)
     \<and> distinct (map (table_index hs' tableSizeBits) inputs)
     \<and> 1 \<le> n
     \<and> advance HashSequential_Increment (nat (n - 1)) hs = Some hs'
     \<and> attempt HashSequential_Hash hs' (of_nat (2 ^ nat tableSizeBits) - 1)
           (replicate (2 ^ nat tableSizeBits) 0) inputs = Inr (True, hashmap phf')
     \<and> (\<forall>i < nat (n - 1). \<exists>hi t.
           advance HashSequential_Increment i hs = Some hi
           \<and> attempt HashSequential_Hash hi (of_nat (2 ^ nat tableSizeBits) - 1)
                (replicate (2 ^ nat tableSizeBits) 0) inputs = Inr (False, t))"
proof -
  let ?msk = "(of_nat ((2 :: nat) ^ nat tableSizeBits) :: uint) - 1"
  let ?sz = "(2 :: nat) ^ nat tableSizeBits"
  from assms have args: "0 < tableSizeBits" "tableSizeBits \<le> 32" "inputs \<noteq> []"
    by (auto simp add: Search_def HashFinder_Search_def split: if_splits)
  with assms have loop:
    "attempt_loop HashSequential_Hash HashSequential_Increment ?msk ?sz inputs hs 0
       = Some (Inr (n, None, phf', hs'))"
    by (simp add: Search_def HashFinder_Search_def Let_def)
  from attempt_loop_success [OF loop] obtain j where
    j: "n = int j + 1" "advance HashSequential_Increment j hs = Some hs'"
       "attempt HashSequential_Hash hs' ?msk (replicate ?sz 0) inputs = Inr (True, hashmap phf')"
       "\<forall>i<j. \<exists>si t. advance HashSequential_Increment i hs = Some si \<and>
            attempt HashSequential_Hash si ?msk (replicate ?sz 0) inputs = Inr (False, t)"
    by auto
  from attempt_success [OF j(3)]
  have d: "distinct (map (slot HashSequential_Hash hs' ?msk) inputs)"
    and s: "\<forall>kw \<in> set inputs. \<exists>i. slot HashSequential_Hash hs' ?msk kw = Inr i"
    by blast+
  have ti: "table_index hs' tableSizeBits = slot HashSequential_Hash hs' ?msk"
    by (rule ext) (simp add: table_index_def)
  have nj: "nat (n - 1) = j" using j(1) by simp
  show ?thesis
    using args d s j unfolding ti nj by simp
qed

lemma small_family_search:
  "Search \<lparr>hashmap = []\<rparr> small_family 1 [''a'', ''bb'']
     = Some (Inr (2, None, \<lparr>hashmap = [1, 1]\<rparr>,
         small_family\<lparr>Coefs := [coef0\<lparr>Value := 2, MaxValue := 4, Op := OpAdd\<rparr>]\<rparr>))"
  by code_simp

theorem Search_success_is_perfect_hash_witness:
  "Search \<lparr>hashmap = []\<rparr> small_family 1 [''a'', ''bb'']
     = Some (Inr (2, None, \<lparr>hashmap = [1, 1]\<rparr>,
         small_family\<lparr>Coefs := [coef0\<lparr>Value := 2, MaxValue := 4, Op := OpAdd\<rparr>]\<rparr>))
   \<and> distinct (map (table_index
         (small_family\<lparr>Coefs := [coef0\<lparr>Value := 2, MaxValue := 4, Op := OpAdd\<rparr>]\<rparr>) 1)
         [''a'', ''bb''])
   \<and> advance HashSequential_Increment 1 small_family
       = Some (small_family\<lparr>Coefs := [coef0\<lparr>Value := 2, MaxValue := 4, Op := OpAdd\<rparr>]\<rparr>)"
  using Search_success_is_perfect_hash [OF small_family_search] small_family_search
  by simp

text \<open>
  C6. For every hasher: when \<open>tableSizeBits\<close> is outside \<open>(0, 32]\<close>, or the inputs are
  empty, \<^verbatim>\<open>Search\<close> returns at once with count 0 and an error, a different one for each
  of the two failures; the result does not depend on the hasher's methods (no attempt
  is made), and the scratch table and the hasher are the ones it was given.
\<close>

theorem Search_rejects_invalid_arguments:
  "(tableSizeBits \<le> 0 \<or> tableSizeBits > 32 \<longrightarrow>
      HashFinder_Search hash increment phf hasher tableSizeBits inputs
        = Some (Inr (0, Some ErrTableSizeBits, phf, hasher)))
   \<and> (0 < tableSizeBits \<and> tableSizeBits \<le> 32 \<and> inputs = [] \<longrightarrow>
      HashFinder_Search hash increment phf hasher tableSizeBits inputs
        = Some (Inr (0, Some ErrZeroInputs, phf, hasher)))
   \<and> ErrTableSizeBits \<noteq> ErrZeroInputs"
  by (simp add: HashFinder_Search_def)

theorem Search_rejects_invalid_arguments_witness:
  "HashFinder_Search HashSequential_Hash HashSequential_Increment
      \<lparr>hashmap = [1, 0]\<rparr> small_family 33 [''a'']
     = Some (Inr (0, Some ErrTableSizeBits, \<lparr>hashmap = [1, 0]\<rparr>, small_family))
   \<and> HashFinder_Search HashSequential_Hash HashSequential_Increment
      \<lparr>hashmap = [1, 0]\<rparr> small_family 0 [''a'']
     = Some (Inr (0, Some ErrTableSizeBits, \<lparr>hashmap = [1, 0]\<rparr>, small_family))
   \<and> HashFinder_Search HashSequential_Hash HashSequential_Increment
      \<lparr>hashmap = [1, 0]\<rparr> small_family 6 []
     = Some (Inr (0, Some ErrZeroInputs, \<lparr>hashmap = [1, 0]\<rparr>, small_family))"
  using
    Search_rejects_invalid_arguments [of 33 HashSequential_Hash HashSequential_Increment
      "\<lparr>hashmap = [1, 0]\<rparr>" small_family "[''a'']"]
    Search_rejects_invalid_arguments [of 0 HashSequential_Hash HashSequential_Increment
      "\<lparr>hashmap = [1, 0]\<rparr>" small_family "[''a'']"]
    Search_rejects_invalid_arguments [of 6 HashSequential_Hash HashSequential_Increment
      "\<lparr>hashmap = [1, 0]\<rparr>" small_family "[]"]
  by simp



text \<open>
  C4. The claim: a family without byte-coefficients is valid, its \<^verbatim>\<open>Increment\<close> runs
  without fault, and \<^verbatim>\<open>Search\<close> over it ends with success or exhaustion. The first
  statement of \<^verbatim>\<open>Increment\<close>, \<^verbatim>\<open>coefs[0].Increment()\<close>, indexes the empty slice: every such
  family faults on its first advancement, and so does a search whose first attempt meets
  a collision.
\<close>

theorem Increment_without_coefficients_faults:
  "HashSequential_Increment (hs\<lparr>Coefs := []\<rparr>) = Inl (IndexOutOfRange InCoefs)
   \<and> HashSequential_ConfigCoefs \<lparr>LenCoef = coef0, Coefs = []\<rparr> 4 = (None, length_only_family)
   \<and> Search \<lparr>hashmap = []\<rparr> length_only_family 1 [''a'', ''c'']
       = Some (Inl (IndexOutOfRange InCoefs))"
  by (simp add: length_only_family_def HashSequential_ConfigCoefs_def Coef_config_def eval_defs)

section \<open>A digit of the odometer\<close>

lemma dbl_steps_unfold:
  "0 < v \<Longrightarrow> dbl_steps v m = (if m \<le> v * 2 then 1 else Suc (dbl_steps (v * 2) m))"
  by (subst dbl_steps.simps) (simp add: mult.commute)

lemma dbl_steps_pos: "0 < dbl_steps v m"
  by (subst dbl_steps.simps) simp

lemma steps_left_unfold:
  "0 < v \<Longrightarrow> steps_left p v m =
     (if m \<le> next_value p v then 1 else Suc (steps_left p (next_value p v) m))"
  by (auto simp add: steps_left_def next_value_def dbl_steps_unfold)

lemma steps_left_pos: "0 < steps_left p v m"
  by (auto simp add: steps_left_def dbl_steps_pos max_def)

lemma start_value_nonzero: "start_value c \<noteq> 0"
  by (simp add: start_value_def)

lemma start_value_pos: "0 < unat (start_value c)"
  using start_value_nonzero [of c] by (simp add: unat_gt_0)

lemma start_value_bound: "in_bounds c \<Longrightarrow> unat (start_value c) < wrap_bound"
  by (simp add: start_value_def in_bounds_def wrap_bound_def)

lemma Coef_init_fields [simp]:
  "Value (Coef_init c) = start_value c"
  "MaxValue (Coef_init c) = MaxValue c"
  "StartValue (Coef_init c) = StartValue c"
  "OnlyPow2 (Coef_init c) = OnlyPow2 c"
  "IndexApplied (Coef_init c) = IndexApplied c"
  "Op (Coef_init c) = (if Op c = 0 then OpAdd else Op c)"
  by (simp_all add: Coef_init_def start_value_def Let_def)

lemma Coef_Increment_fields [simp]:
  "MaxValue (Coef_Increment c) = MaxValue c"
  "StartValue (Coef_Increment c) = StartValue c"
  "OnlyPow2 (Coef_Increment c) = OnlyPow2 c"
  "IndexApplied (Coef_Increment c) = IndexApplied c"
  "Op (Coef_Increment c) = Op c"
  by (simp_all add: Coef_Increment_def)

lemma start_value_preserved [simp]:
  "start_value (Coef_init c) = start_value c"
  "start_value (Coef_Increment c) = start_value c"
  by (simp_all add: start_value_def)

lemma in_bounds_preserved [simp]:
  "in_bounds (Coef_init c) = in_bounds c"
  "in_bounds (Coef_Increment c) = in_bounds c"
  by (simp_all add: in_bounds_def)

lemma Coef_range_preserved [simp]:
  "Coef_range (Coef_init c) = Coef_range c"
  "Coef_range (Coef_Increment c) = Coef_range c"
  "LenCoef_range (Coef_init c) = LenCoef_range c"
  "LenCoef_range (Coef_Increment c) = LenCoef_range c"
  by (simp_all add: Coef_range_def LenCoef_range_def)

lemma unat_Increment:
  assumes "unat (Value c) < wrap_bound"
  shows "unat (Value (Coef_Increment c)) = next_value (OnlyPow2 c) (unat (Value c))"
proof (cases "OnlyPow2 c")
  case True
  have "unat (Value c * 2) = unat (Value c) * 2 mod 2 ^ 64"
    by (simp add: unat_word_ariths)
  also have "\<dots> = unat (Value c) * 2"
    using assms by (simp add: wrap_bound_def)
  finally show ?thesis
    using True by (simp add: Coef_Increment_def next_value_def)
next
  case False
  have "unat (Value c + 1) = (unat (Value c) + 1) mod 2 ^ 64"
    by (simp add: unat_word_ariths)
  also have "\<dots> = unat (Value c) + 1"
    using assms by (simp add: wrap_bound_def)
  finally show ?thesis
    using False by (simp add: Coef_Increment_def next_value_def)
qed

lemma Saturated_unat: "Coef_Saturated c \<longleftrightarrow> unat (MaxValue c) \<le> unat (Value c)"
  by (simp add: Coef_Saturated_def word_le_nat_alt)

lemma next_value_pos: "0 < v \<Longrightarrow> 0 < next_value p v"
  by (simp add: next_value_def)

text \<open>A digit at its start value.\<close>

lemma digit_ok_init: "in_bounds c \<Longrightarrow> digit_ok m (Coef_init c)"
  by (simp add: digit_ok_def start_value_pos start_value_bound)

lemma digit_pos_init [simp]: "digit_pos m (Coef_init c) = 0"
  by (simp add: digit_pos_def)

text \<open>A digit that is advanced and stays below its limit moves one position up.\<close>

lemma digit_advance:
  assumes ok: "digit_ok m c" and m: "m \<le> wrap_bound"
    and lt: "unat (Value (Coef_Increment c)) < m"
  shows "digit_ok m (Coef_Increment c)"
    and "digit_pos m (Coef_Increment c) = Suc (digit_pos m c)"
proof -
  let ?p = "OnlyPow2 c"
  let ?v = "unat (Value c)"
  from ok have v: "0 < ?v" "?v < wrap_bound"
    and le: "steps_left ?p ?v m \<le> steps_left ?p (unat (start_value c)) m"
    by (simp_all add: digit_ok_def)
  have nv: "unat (Value (Coef_Increment c)) = next_value ?p ?v"
    using v by (simp add: unat_Increment)
  with lt have "\<not> m \<le> next_value ?p ?v" by simp
  with v have s: "steps_left ?p ?v m = Suc (steps_left ?p (next_value ?p ?v) m)"
    by (simp add: steps_left_unfold)
  show "digit_ok m (Coef_Increment c)"
    using v le s nv lt m by (simp add: digit_ok_def next_value_pos)
  show "digit_pos m (Coef_Increment c) = Suc (digit_pos m c)"
    using le s nv by (simp add: digit_pos_def)
qed

text \<open>A digit whose advancement reaches the limit was at its last position.\<close>

lemma digit_last:
  assumes ok: "digit_ok m c" and ge: "m \<le> unat (Value (Coef_Increment c))"
  shows "Suc (digit_pos m c) = steps_left (OnlyPow2 c) (unat (start_value c)) m"
proof -
  let ?p = "OnlyPow2 c"
  let ?v = "unat (Value c)"
  from ok have v: "0 < ?v" "?v < wrap_bound" by (simp_all add: digit_ok_def)
  have "unat (Value (Coef_Increment c)) = next_value ?p ?v"
    using v by (simp add: unat_Increment)
  with ge v have "steps_left ?p ?v m = 1"
    by (simp add: steps_left_unfold)
  then show ?thesis
    using steps_left_pos [of ?p "unat (start_value c)" m] by (simp add: digit_pos_def)
qed

lemma digit_pos_less:
  "digit_pos m c < steps_left (OnlyPow2 c) (unat (start_value c)) m"
  using steps_left_pos [of "OnlyPow2 c" "unat (Value c)" m]
    steps_left_pos [of "OnlyPow2 c" "unat (start_value c)" m]
  by (simp add: digit_pos_def)

text \<open>The range sizes against the inclusive range \<open>[start, MaxValue]\<close>: a coefficient
  that steps by one takes \<open>MaxValue - start\<close> values as a byte-coefficient and
  \<open>MaxValue - start + 1\<close> as the length coefficient (one value when that is less); a
  doubling one takes no more.\<close>

lemma dbl_steps_le: "0 < v \<Longrightarrow> dbl_steps v m \<le> max 1 (m - v)"
proof (induction v m rule: dbl_steps.induct)
  case (1 v m)
  show ?case
  proof (cases "m \<le> 2 * v")
    case True
    then show ?thesis by (subst dbl_steps.simps) simp
  next
    case False
    with 1 have "dbl_steps (2 * v) m \<le> max 1 (m - 2 * v)" by simp
    with False have "dbl_steps (2 * v) m \<le> m - 2 * v" by simp
    with False 1(2) have "Suc (dbl_steps (2 * v) m) \<le> m - v" by arith
    moreover have "dbl_steps v m = Suc (dbl_steps (2 * v) m)"
      using False 1(2) by (subst dbl_steps.simps) simp
    ultimately show ?thesis by simp
  qed
qed

lemma steps_left_le: "0 < v \<Longrightarrow> steps_left p v m \<le> max 1 (m - v)"
  using dbl_steps_le [of v m] by (simp add: steps_left_def)

lemma Coef_range_le:
  "Coef_range c \<le> max 1 (unat (MaxValue c) - unat (start_value c))"
  "LenCoef_range c \<le> max 1 (unat (MaxValue c) + 1 - unat (start_value c))"
  using start_value_pos [of c]
  by (simp_all only: Coef_range_def LenCoef_range_def steps_left_le)

lemma range_by_one:
  assumes "\<not> OnlyPow2 c"
  shows "Coef_range c = max 1 (unat (MaxValue c) - unat (start_value c))"
    and "LenCoef_range c = max 1 (unat (MaxValue c) + 1 - unat (start_value c))"
  using assms by (simp_all add: Coef_range_def LenCoef_range_def steps_left_def)

lemma range_le_inclusive:
  "Coef_range c \<le> inclusive_range c" "LenCoef_range c \<le> inclusive_range c"
  using Coef_range_le [of c] by (simp_all add: inclusive_range_def max_def split: if_splits)

lemma prod_list_map_mono:
  "\<forall>x \<in> set xs. f x \<le> (g x :: nat) \<Longrightarrow> prod_list (map f xs) \<le> prod_list (map g xs)"
  by (induction xs) (simp_all add: mult_le_mono)

text \<open>The search space is no larger than the product of the inclusive ranges.\<close>

lemma search_space_le_inclusive:
  "search_space_size hs \<le> prod_list (map inclusive_range (LenCoef hs # Coefs hs))"
proof -
  have "prod_list (map Coef_range (Coefs hs)) \<le> prod_list (map inclusive_range (Coefs hs))"
    by (intro prod_list_map_mono) (simp add: range_le_inclusive)
  then show ?thesis
    by (simp add: search_space_size_def mult_le_mono range_le_inclusive)
qed

section \<open>The carry loop\<close>

lemma carry_loop_carry:
  "length xs = i \<Longrightarrow> carry_loop i (xs @ c # ds) = xs @ carry c ds"
proof (induction ds arbitrary: xs c i)
  case Nil
  then show ?case
    by (subst carry_loop.simps) simp
next
  case (Cons d ds)
  have upd: "(xs @ c # d # ds)[i := Coef_init c, Suc i := Coef_Increment d]
      = (xs @ [Coef_init c]) @ Coef_Increment d # ds"
    using Cons.prems by (simp add: list_update_append)
  have len: "length (xs @ [Coef_init c]) = Suc i"
    using Cons.prems by simp
  show ?case
  proof (cases "Coef_Saturated c")
    case True
    have "carry_loop i (xs @ c # d # ds)
        = carry_loop (Suc i) ((xs @ c # d # ds)[i := Coef_init c, Suc i := Coef_Increment d])"
      using Cons.prems True
      by (subst carry_loop.simps) (simp add: nth_append)
    also have "\<dots> = (xs @ [Coef_init c]) @ carry (Coef_Increment d) ds"
      unfolding upd by (rule Cons.IH [OF len])
    finally show ?thesis
      using True by simp
  next
    case False
    then show ?thesis
      using Cons.prems by (subst carry_loop.simps) (simp add: nth_append)
  qed
qed

lemma carry_nonempty: "carry c ds \<noteq> []"
  by (cases ds) simp_all

lemma carry_length: "length (carry c ds) = Suc (length ds)"
  by (induction ds arbitrary: c) simp_all

lemma update_last: "xs \<noteq> [] \<Longrightarrow> xs[length xs - 1 := x] = butlast xs @ [x]"
  by (induction xs rule: rev_induct) simp_all

text \<open>\<^verbatim>\<open>HashSequential.Increment\<close> on a family with at least one byte-coefficient.\<close>

lemma HashSequential_Increment_carry:
  assumes "Coefs hs = c # cs"
  shows "HashSequential_Increment hs =
    (let r = carry (Coef_Increment c) cs;
         coefs = (if Coef_Saturated (last r) then butlast r @ [Coef_init (last r)] else r);
         lc = (if Coef_Saturated (last r) then Coef_Increment (LenCoef hs) else LenCoef hs)
     in Inr (Value lc > MaxValue lc, hs\<lparr>LenCoef := lc, Coefs := coefs\<rparr>))"
proof -
  let ?r = "carry (Coef_Increment c) cs"
  have r: "carry_loop 0 (Coef_Increment c # cs) = ?r"
    using carry_loop_carry [of "[]" 0 "Coef_Increment c" cs] by simp
  have n: "?r \<noteq> []" by (rule carry_nonempty)
  then have l: "?r ! (length ?r - Suc 0) = last ?r"
    by (simp add: last_conv_nth)
  have u: "\<And>x. ?r[length ?r - Suc 0 := x] = butlast ?r @ [x]"
    using update_last [OF n] by simp
  show ?thesis
    using assms by (simp add: HashSequential_Increment_def Let_def r l u)
qed

text \<open>The carry loop against the counter: they differ only in who resets the last
  coefficient.\<close>

lemma odometer_step_carry:
  assumes "odometer_step (c # cs) = (cs', out)"
  shows "(out \<longrightarrow> Coef_Saturated (last (carry (Coef_Increment c) cs))
            \<and> cs' = butlast (carry (Coef_Increment c) cs)
                      @ [Coef_init (last (carry (Coef_Increment c) cs))])
       \<and> (\<not> out \<longrightarrow> cs' = carry (Coef_Increment c) cs)"
  using assms
proof (induction cs arbitrary: c cs' out)
  case Nil
  then show ?case by (auto split: if_splits)
next
  case (Cons d ds)
  show ?case
  proof (cases "Coef_Saturated (Coef_Increment c)")
    case True
    obtain ds' out' where s: "odometer_step (d # ds) = (ds', out')"
      by (cases "odometer_step (d # ds)")
    from Cons.prems True s
    have cs': "cs' = Coef_init (Coef_Increment c) # ds'" and out: "out = out'"
      by simp_all
    from Cons.IH [OF s] True cs' out carry_nonempty [of "Coef_Increment d" ds]
    show ?thesis by (auto simp add: butlast_append)
  next
    case False
    with Cons.prems show ?thesis by auto
  qed
qed

section \<open>The counter\<close>

lemma odometer_pos_less:
  "odometer_pos cs < prod_list (map Coef_range cs)"
proof (induction cs)
  case Nil
  then show ?case by simp
next
  case (Cons c cs)
  let ?R = "Coef_range c"
  have d: "digit_pos (unat (MaxValue c)) c < ?R"
    using digit_pos_less [of "unat (MaxValue c)" c] by (simp add: Coef_range_def)
  have "digit_pos (unat (MaxValue c)) c + ?R * odometer_pos cs < ?R + ?R * odometer_pos cs"
    using d by simp
  also have "\<dots> = ?R * Suc (odometer_pos cs)" by simp
  also have "\<dots> \<le> ?R * prod_list (map Coef_range cs)"
    using Cons.IH by (intro mult_le_mono2) simp
  finally show ?case by simp
qed

lemma odometer_step_ranges:
  "odometer_step cs = (cs', out) \<Longrightarrow> map Coef_range cs' = map Coef_range cs"
  by (induction cs arbitrary: cs' out) (auto split: if_splits prod.splits)

text \<open>A step of the counter adds one to its position, or, with a carry out, goes from
  the last position back to the first.\<close>

lemma odometer_step_pos:
  assumes "coefs_ok cs" and "odometer_step cs = (cs', out)"
  shows "coefs_ok cs'
     \<and> (if out then Suc (odometer_pos cs) = prod_list (map Coef_range cs) \<and> odometer_pos cs' = 0
         else odometer_pos cs' = Suc (odometer_pos cs))"
  using assms
proof (induction cs arbitrary: cs' out)
  case Nil
  then show ?case by (simp add: coefs_ok_def)
next
  case (Cons c cs)
  let ?m = "unat (MaxValue c)"
  let ?c' = "Coef_Increment c"
  from Cons.prems(1) have c: "in_bounds c" "digit_ok ?m c" and cs: "coefs_ok cs"
    by (simp_all add: coefs_ok_def)
  from c(1) have m: "?m \<le> wrap_bound" by (simp add: in_bounds_def)
  show ?case
  proof (cases "Coef_Saturated ?c'")
    case True
    obtain ds out' where s: "odometer_step cs = (ds, out')"
      by (cases "odometer_step cs")
    from Cons.prems(2) True s
    have cs': "cs' = Coef_init ?c' # ds" and out: "out = out'"
      by simp_all
    from Cons.IH [OF cs s]
    have ds: "coefs_ok ds"
      and p: "if out' then Suc (odometer_pos cs) = prod_list (map Coef_range cs)
                \<and> odometer_pos ds = 0
              else odometer_pos ds = Suc (odometer_pos cs)"
      by simp_all
    from True have "?m \<le> unat (Value ?c')"
      by (simp add: Saturated_unat)
    from digit_last [OF c(2) this]
    have last: "Suc (digit_pos ?m c) = Coef_range c"
      by (simp add: Coef_range_def)
    have ok: "coefs_ok cs'"
      using ds c(1) cs' by (simp add: coefs_ok_def digit_ok_init)
    show ?thesis
    proof (cases out')
      case True
      with p have "Suc (odometer_pos cs) = prod_list (map Coef_range cs)"
        and z: "odometer_pos ds = 0"
        by simp_all
      then have "Coef_range c * prod_list (map Coef_range cs)
          = Coef_range c + Coef_range c * odometer_pos cs"
        by (metis mult_Suc_right)
      with last have "Suc (odometer_pos (c # cs)) = prod_list (map Coef_range (c # cs))"
        by simp
      with ok z cs' out True show ?thesis by simp
    next
      case False
      with p have "odometer_pos ds = Suc (odometer_pos cs)" by simp
      with last have "odometer_pos cs' = Suc (odometer_pos (c # cs))"
        using cs' by simp
      with ok out False show ?thesis by simp
    qed
  next
    case False
    with Cons.prems(2) have cs': "cs' = ?c' # cs" and out: "\<not> out"
      by simp_all
    from False have lt: "unat (Value ?c') < ?m"
      by (simp add: Saturated_unat)
    from digit_advance [OF c(2) m lt]
    have "digit_ok ?m ?c'" and "digit_pos ?m ?c' = Suc (digit_pos ?m c)"
      by simp_all
    with c(1) cs cs' out show ?thesis
      by (simp add: coefs_ok_def)
  qed
qed

section \<open>The family as a counter\<close>

lemma shape_preserved [simp]:
  "shape (Coef_Increment c) = shape c"
  "Op c \<noteq> 0 \<Longrightarrow> shape (Coef_init c) = shape c"
  by (simp_all add: shape_def Coef_Increment_def Coef_init_def Let_def)

lemma carry_shape:
  "\<forall>x \<in> set (c # ds). Op x \<noteq> 0 \<Longrightarrow> map shape (carry c ds) = map shape (c # ds)"
  by (induction ds arbitrary: c) simp_all

lemma map_butlast_last:
  "xs \<noteq> [] \<Longrightarrow> f (g (last xs)) = f (last xs) \<Longrightarrow> map f (butlast xs @ [g (last xs)]) = map f xs"
  by (induction xs rule: rev_induct) simp_all

lemma shape_Op: "map shape xs = map shape ys \<Longrightarrow> map Op xs = map Op ys"
proof -
  assume "map shape xs = map shape ys"
  then have "map (Op \<circ> shape) xs = map (Op \<circ> shape) ys"
    by (metis map_map)
  moreover have "Op \<circ> shape = Op" by (rule ext) (simp add: shape_def)
  ultimately show ?thesis by simp
qed

lemma shape_Value_eq:
  "map shape xs = map shape ys \<Longrightarrow> map Value xs = map Value ys \<Longrightarrow> xs = ys"
proof (induction xs arbitrary: ys)
  case Nil
  then show ?case by simp
next
  case (Cons x xs)
  then obtain y ys' where ys: "ys = y # ys'" by (cases ys) auto
  with Cons.prems have "shape x = shape y" "Value x = Value y" by simp_all
  then have "x = y"
    by (cases x, cases y) (simp add: shape_def)
  with Cons ys show ?case by simp
qed

lemma supported_nonzero: "supported opr \<Longrightarrow> opr \<noteq> 0"
  by (auto simp add: supported_def OpAdd_def OpXor_def OpMul_def)

lemma family_pos_less:
  assumes "family_ok hs"
  shows "family_pos hs < search_space_size hs"
proof -
  let ?P = "prod_list (map Coef_range (Coefs hs))"
  let ?L = "LenCoef hs"
  let ?lp = "digit_pos (unat (MaxValue ?L) + 1) ?L"
  have "?lp < LenCoef_range ?L"
    using digit_pos_less [of "unat (MaxValue ?L) + 1" ?L] by (simp add: LenCoef_range_def)
  then have "Suc ?lp \<le> LenCoef_range ?L" by simp
  then have "?P * Suc ?lp \<le> ?P * LenCoef_range ?L"
    by (rule mult_le_mono2)
  moreover have "odometer_pos (Coefs hs) + ?P * ?lp < ?P * Suc ?lp"
    using odometer_pos_less [of "Coefs hs"] by simp
  ultimately show ?thesis
    by (simp add: family_pos_def search_space_size_def mult.commute)
qed

lemma carry_born:
  "map (\<lambda>x. Coef_Saturated (Coef_init x)) (carry c ds)
     = map (\<lambda>x. Coef_Saturated (Coef_init x)) (c # ds)"
  by (induction ds arbitrary: c) (simp_all add: Coef_Saturated_def)

lemma last_born:
  assumes "map (\<lambda>x. Coef_Saturated (Coef_init x)) xs
     = map (\<lambda>x. Coef_Saturated (Coef_init x)) ys" and "ys \<noteq> []"
  shows "Coef_Saturated (Coef_init (last xs)) = Coef_Saturated (Coef_init (last ys))"
proof -
  from assms have "xs \<noteq> []" by auto
  then have "Coef_Saturated (Coef_init (last xs))
      = last (map (\<lambda>x. Coef_Saturated (Coef_init x)) xs)"
    by (simp add: last_map)
  also have "\<dots> = Coef_Saturated (Coef_init (last ys))"
    using assms by (simp add: last_map)
  finally show ?thesis .
qed

text \<open>Without a carry out, the counter leaves its last digit unsaturated, if it was so
  before or is the only one.\<close>

lemma odometer_step_last:
  assumes "odometer_step cs = (cs', False)" and "cs \<noteq> []"
    and "length cs = 1 \<or> \<not> Coef_Saturated (last cs)"
  shows "\<not> Coef_Saturated (last cs')"
  using assms
proof (induction cs arbitrary: cs')
  case Nil
  then show ?case by simp
next
  case (Cons c cs)
  show ?case
  proof (cases cs)
    case Nil
    with Cons.prems(1) show ?thesis by (auto split: if_splits)
  next
    case (Cons d ds)
    with Cons.prems(3) have l: "\<not> Coef_Saturated (last cs)" by simp
    show ?thesis
    proof (cases "Coef_Saturated (Coef_Increment c)")
      case True
      obtain ds' out' where s: "odometer_step cs = (ds', out')"
        by (cases "odometer_step cs")
      with Cons.prems(1) True have cs': "cs' = Coef_init (Coef_Increment c) # ds'"
        and o: "\<not> out'" by simp_all
      from s o have s': "odometer_step cs = (ds', False)" by simp
      have "map Coef_range ds' = map Coef_range cs"
        using s by (rule odometer_step_ranges)
      then have "length ds' = length cs" by (metis length_map)
      with Cons have ne: "ds' \<noteq> []" by auto
      from Cons.IH [OF s'] Cons l have "\<not> Coef_Saturated (last ds')" by simp
      with cs' ne show ?thesis by simp
    next
      case False
      with Cons.prems(1) have "cs' = Coef_Increment c # cs" by simp
      with Cons l show ?thesis by simp
    qed
  qed
qed

text \<open>What one call of \<^verbatim>\<open>Increment\<close> does to a family in good order: it returns, keeps
  everything but the values, and, unless it reports exhaustion, leaves a family in good
  order at a higher position; on a regular family it reports exhaustion exactly at the
  last position, and moves one position up otherwise.\<close>

lemma Increment_step:
  assumes ok: "family_ok hs"
  shows "\<exists>dn hs'. HashSequential_Increment hs = Inr (dn, hs')
     \<and> search_space_size hs' = search_space_size hs
     \<and> ((\<forall>c \<in> set (Coefs hs). Op c \<noteq> 0) \<longrightarrow> family_shape hs' = family_shape hs)
     \<and> (\<not> dn \<longrightarrow> family_ok hs' \<and> family_pos hs < family_pos hs')
     \<and> (regular hs \<longrightarrow> (dn \<longleftrightarrow> Suc (family_pos hs) = search_space_size hs)
           \<and> (\<not> dn \<longrightarrow> regular hs' \<and> family_pos hs' = Suc (family_pos hs)))"
proof -
  from ok obtain c cs where coefs: "Coefs hs = c # cs"
    by (cases "Coefs hs") (auto simp add: family_ok_def)
  let ?L = "LenCoef hs"
  let ?m = "unat (MaxValue ?L) + 1"
  define P where "P = prod_list (map Coef_range (c # cs))"
  define low where "low = odometer_pos (c # cs)"
  define lp where "lp = digit_pos ?m ?L"
  define RL where "RL = LenCoef_range ?L"
  define r where "r = carry (Coef_Increment c) cs"
  from ok coefs have cok: "coefs_ok (c # cs)" and Lb: "in_bounds ?L" and Lok: "digit_ok ?m ?L"
    by (simp_all add: family_ok_def)
  from Lb have m: "?m \<le> wrap_bound" by (simp add: in_bounds_def)
  obtain cs2 out where step: "odometer_step (c # cs) = (cs2, out)"
    by (cases "odometer_step (c # cs)")
  have ok2: "coefs_ok cs2"
    using odometer_step_pos [OF cok step] by (rule conjunct1)
  have pos2: "if out then Suc low = P \<and> odometer_pos cs2 = 0
               else odometer_pos cs2 = Suc low"
    unfolding low_def P_def
    using odometer_step_pos [OF cok step] by (rule conjunct2)
  have rng2: "map Coef_range cs2 = map Coef_range (c # cs)"
    using step by (rule odometer_step_ranges)
  have P2: "prod_list (map Coef_range cs2) = P"
    unfolding P_def rng2 ..
  have out: "out \<longrightarrow> Coef_Saturated (last r) \<and> cs2 = butlast r @ [Coef_init (last r)]"
    and nout: "\<not> out \<longrightarrow> cs2 = r"
    unfolding r_def using odometer_step_carry [OF step] by blast+
  have rne: "r \<noteq> []" unfolding r_def by (rule carry_nonempty)
  have lenr: "length r = length (c # cs)" unfolding r_def by (simp add: carry_length)
  have lowlt: "low < P" unfolding low_def P_def by (rule odometer_pos_less)
  have low2: "odometer_pos cs2 < P"
    using odometer_pos_less [of cs2] P2 by simp
  have shr: "(\<forall>x \<in> set (c # cs). Op x \<noteq> 0) \<longrightarrow> map shape r = map shape (c # cs)"
    unfolding r_def using carry_shape [of "Coef_Increment c" cs] by simp
  have born: "Coef_Saturated (Coef_init (last r)) = Coef_Saturated (Coef_init (last (c # cs)))"
    unfolding r_def using carry_born [of "Coef_Increment c" cs]
    by (intro last_born) (simp_all add: Coef_Saturated_def)
  have lplt: "lp < RL"
    unfolding lp_def RL_def
    using digit_pos_less [of ?m ?L] by (simp add: LenCoef_range_def)
  have pos: "family_pos hs = low + P * lp"
    using coefs by (simp add: family_pos_def low_def P_def lp_def)
  have space: "search_space_size hs = P * RL"
    using coefs by (simp add: search_space_size_def P_def RL_def mult.commute)
  have incr: "HashSequential_Increment hs =
      (let coefs = (if Coef_Saturated (last r) then butlast r @ [Coef_init (last r)] else r);
           lc = (if Coef_Saturated (last r) then Coef_Increment ?L else ?L)
       in Inr (Value lc > MaxValue lc, hs\<lparr>LenCoef := lc, Coefs := coefs\<rparr>))"
    unfolding r_def by (simp add: HashSequential_Increment_carry [OF coefs] Let_def)
  show ?thesis
  proof (cases "Coef_Saturated (last r)")
    case sat: True
    define coefs' where "coefs' = butlast r @ [Coef_init (last r)]"
    define L' where "L' = Coef_Increment ?L"
    define hs' where "hs' = hs\<lparr>LenCoef := L', Coefs := coefs'\<rparr>"
    define dn where "dn \<longleftrightarrow> Value L' > MaxValue L'"
    have inc: "HashSequential_Increment hs = Inr (dn, hs')"
      using sat incr by (simp add: dn_def hs'_def L'_def coefs'_def Let_def)
    have sel: "Coefs hs' = coefs'" "LenCoef hs' = L'"
      by (simp_all add: hs'_def)
    have L'f: "MaxValue L' = MaxValue ?L" "in_bounds L'" "LenCoef_range L' = RL"
      using Lb by (simp_all add: L'_def RL_def)
    have cok': "coefs_ok coefs'" and rng': "map Coef_range coefs' = map Coef_range (c # cs)"
    proof -
      have "coefs_ok coefs' \<and> map Coef_range coefs' = map Coef_range (c # cs)"
      proof (cases out)
        case True
        with out ok2 rng2 show ?thesis by (simp add: coefs'_def)
      next
        case False
        with nout have r: "r = cs2" by simp
        have "\<forall>x \<in> set (butlast r). in_bounds x \<and> digit_ok (unat (MaxValue x)) x"
          using ok2 r by (auto simp add: coefs_ok_def dest: in_set_butlastD)
        moreover have "in_bounds (last r)"
          using ok2 r rne by (auto simp add: coefs_ok_def)
        ultimately have "coefs_ok coefs'"
          by (auto simp add: coefs_ok_def coefs'_def digit_ok_init)
        moreover have "map Coef_range coefs' = map Coef_range r"
          unfolding coefs'_def using rne by (intro map_butlast_last) simp_all
        ultimately show ?thesis using r rng2 by simp
      qed
      then show "coefs_ok coefs'" and "map Coef_range coefs' = map Coef_range (c # cs)"
        by simp_all
    qed
    have P': "prod_list (map Coef_range coefs') = P"
      unfolding P_def rng' ..
    have low': "odometer_pos coefs' < P"
      using odometer_pos_less [of coefs'] P' by simp
    have space': "search_space_size hs' = search_space_size hs"
      unfolding space by (simp add: search_space_size_def sel P' L'f mult.commute)
    have pos': "family_pos hs' = odometer_pos coefs' + P * digit_pos ?m L'"
      by (simp add: family_pos_def sel P' L'f)
    have shp: "(\<forall>x \<in> set (Coefs hs). Op x \<noteq> 0) \<longrightarrow> family_shape hs' = family_shape hs"
    proof
      assume ops: "\<forall>x \<in> set (Coefs hs). Op x \<noteq> 0"
      with shr coefs have s: "map shape r = map shape (c # cs)" by simp
      then have "map Op r = map Op (c # cs)" by (rule shape_Op)
      then have "set (map Op r) = set (map Op (c # cs))" by simp
      moreover have "Op (last r) \<in> set (map Op r)" using rne by simp
      ultimately have "Op (last r) \<in> Op ` set (Coefs hs)" using coefs by simp
      with ops have "Op (last r) \<noteq> 0" by auto
      then have "map shape coefs' = map shape r"
        unfolding coefs'_def using rne by (intro map_butlast_last) simp_all
      with s coefs show "family_shape hs' = family_shape hs"
        by (simp add: family_shape_def sel L'_def)
    qed
    have adv: "\<not> dn \<longrightarrow> digit_ok ?m L' \<and> digit_pos ?m L' = Suc lp"
    proof
      assume "\<not> dn"
      then have "unat (Value L') < ?m"
        by (simp add: dn_def L'f word_less_nat_alt)
      then have "unat (Value (Coef_Increment ?L)) < ?m" by (simp add: L'_def)
      from digit_advance [OF Lok m this]
      show "digit_ok ?m L' \<and> digit_pos ?m L' = Suc lp"
        by (simp add: L'_def lp_def)
    qed
    have notdone: "\<not> dn \<longrightarrow> family_ok hs' \<and> family_pos hs < family_pos hs'"
    proof
      assume nd: "\<not> dn"
      with adv have L': "digit_ok ?m L'" "digit_pos ?m L' = Suc lp" by simp_all
      have fok: "family_ok hs'"
        using cok' L'(1) L'f rne by (simp add: family_ok_def sel coefs'_def)
      have "family_pos hs < P + P * lp"
        using lowlt pos by simp
      also have "\<dots> \<le> family_pos hs'"
        using pos' L'(2) by simp
      finally show "family_ok hs' \<and> family_pos hs < family_pos hs'"
        using fok by simp
    qed
    have reg: "regular hs \<longrightarrow> (dn \<longleftrightarrow> Suc (family_pos hs) = search_space_size hs)
           \<and> (\<not> dn \<longrightarrow> regular hs' \<and> family_pos hs' = Suc (family_pos hs))"
    proof
      assume regular: "regular hs"
      have isout: out
      proof (rule ccontr)
        assume no: "\<not> out"
        with nout have r: "r = cs2" by simp
        from no step have "odometer_step (c # cs) = (cs2, False)" by simp
        moreover have "length (c # cs) = 1 \<or> \<not> Coef_Saturated (last (c # cs))"
          using regular coefs by (auto simp add: regular_def)
        ultimately have "\<not> Coef_Saturated (last cs2)"
          by (intro odometer_step_last [of "c # cs"]) simp_all
        with r sat show False by simp
      qed
      with pos2 have low: "Suc low = P" and z: "odometer_pos cs2 = 0"
        by simp_all
      from isout out have c2: "coefs' = cs2" by (simp add: coefs'_def)
      have spos: "Suc (family_pos hs) = P * Suc lp"
        using low pos by simp
      have Ppos: "0 < P" using lowlt by simp
      have dn_iff: "dn \<longleftrightarrow> Suc lp = RL"
      proof
        assume dn
        then have "?m \<le> unat (Value (Coef_Increment ?L))"
          by (simp add: dn_def L'_def word_less_nat_alt)
        from digit_last [OF Lok this] show "Suc lp = RL"
          by (simp add: lp_def RL_def LenCoef_range_def)
      next
        assume e: "Suc lp = RL"
        show dn
        proof (rule ccontr)
          assume "\<not> dn"
          with adv have "digit_pos ?m L' = Suc lp" by simp
          moreover have "digit_pos ?m L' < RL"
            using digit_pos_less [of ?m L'] L'f
            by (simp add: RL_def LenCoef_range_def L'_def)
          ultimately show False using e by simp
        qed
      qed
      have "P * Suc lp = P * RL \<longleftrightarrow> Suc lp = RL"
        using Ppos by (simp only: mult_cancel1) simp
      then have "dn \<longleftrightarrow> Suc (family_pos hs) = search_space_size hs"
        unfolding dn_iff spos space by simp
      moreover have "\<not> dn \<longrightarrow> regular hs' \<and> family_pos hs' = Suc (family_pos hs)"
      proof
        assume nd: "\<not> dn"
        with adv have lp': "digit_pos ?m L' = Suc lp" by simp
        have "family_pos hs' = P * Suc lp"
          using c2 z pos' lp' by simp
        with spos have p: "family_pos hs' = Suc (family_pos hs)" by simp
        have "length coefs' = length (c # cs)"
          using rne lenr by (simp add: coefs'_def)
        moreover have "last coefs' = Coef_init (last r)" by (simp add: coefs'_def)
        moreover have "length (c # cs) \<noteq> 1 \<longrightarrow> \<not> Coef_Saturated (Coef_init (last r))"
          using regular coefs born by (auto simp add: regular_def)
        moreover have "Coef_Saturated (Coef_init (Coef_init (last r)))
            = Coef_Saturated (Coef_init (last r))"
          by (simp add: Coef_Saturated_def)
        moreover have "Value L' \<le> MaxValue L'" using nd by (simp add: dn_def not_less)
        ultimately have "regular hs'"
          by (auto simp add: regular_def sel)
        with p show "regular hs' \<and> family_pos hs' = Suc (family_pos hs)" by simp
      qed
      ultimately show "(dn \<longleftrightarrow> Suc (family_pos hs) = search_space_size hs)
           \<and> (\<not> dn \<longrightarrow> regular hs' \<and> family_pos hs' = Suc (family_pos hs))"
        by simp
    qed
    from inc space' shp notdone reg show ?thesis by blast
  next
    case unsat: False
    define hs' where "hs' = hs\<lparr>LenCoef := ?L, Coefs := r\<rparr>"
    define dn where "dn \<longleftrightarrow> Value ?L > MaxValue ?L"
    have inc: "HashSequential_Increment hs = Inr (dn, hs')"
      using unsat incr by (simp add: dn_def hs'_def Let_def)
    have sel: "Coefs hs' = r" "LenCoef hs' = ?L"
      by (simp_all add: hs'_def)
    from unsat out have no: "\<not> out" by blast
    with nout have r: "r = cs2" by simp
    from no pos2 have p2: "odometer_pos r = Suc low" using r by simp
    have space': "search_space_size hs' = search_space_size hs"
      unfolding space by (simp add: search_space_size_def sel r P2 RL_def mult.commute)
    have pos': "family_pos hs' = Suc (family_pos hs)"
      unfolding pos by (simp add: family_pos_def sel p2 lp_def) (simp add: r P2)
    have shp: "(\<forall>x \<in> set (Coefs hs). Op x \<noteq> 0) \<longrightarrow> family_shape hs' = family_shape hs"
      using shr coefs by (simp add: family_shape_def sel)
    have fok: "family_ok hs'"
      using ok2 r rne Lb Lok by (simp add: family_ok_def sel)
    have reg: "regular hs \<longrightarrow> (dn \<longleftrightarrow> Suc (family_pos hs) = search_space_size hs)
           \<and> (\<not> dn \<longrightarrow> regular hs' \<and> family_pos hs' = Suc (family_pos hs))"
    proof
      assume regular: "regular hs"
      then have nd: "\<not> dn" by (simp add: regular_def dn_def not_less)
      have "Suc (family_pos hs) < P + P * lp"
        using low2 p2 r pos by simp
      also have "\<dots> = P * Suc lp" by simp
      also have "\<dots> \<le> P * RL"
        using lplt by (intro mult_le_mono2) simp
      finally have ne: "Suc (family_pos hs) \<noteq> search_space_size hs"
        using space by simp
      have "length r \<noteq> 1 \<longrightarrow> \<not> Coef_Saturated (Coef_init (last r))"
        using regular coefs born lenr by (auto simp add: regular_def)
      with unsat regular have "regular hs'"
        by (auto simp add: regular_def sel)
      with nd ne pos' show "(dn \<longleftrightarrow> Suc (family_pos hs) = search_space_size hs)
           \<and> (\<not> dn \<longrightarrow> regular hs' \<and> family_pos hs' = Suc (family_pos hs))"
        by simp
    qed
    from inc space' shp fok pos' reg show ?thesis by (intro exI [of _ dn] exI [of _ hs']) simp
  qed
qed

section \<open>Repeated advancement\<close>

lemma hashable_shape:
  "hashable hs \<longleftrightarrow>
     (\<forall>x \<in> set (fst (family_shape hs)). supported (Op x) \<and> IndexApplied x \<noteq> - (2 ^ 63))"
  by (simp add: hashable_def family_shape_def shape_def)

lemma hashable_ops: "hashable hs \<Longrightarrow> \<forall>c \<in> set (Coefs hs). Op c \<noteq> 0"
  by (auto simp add: hashable_def dest: supported_nonzero)

lemma hashable_total: "hashable hs \<Longrightarrow> \<exists>v. HashSequential_Hash hs kw = Inr v"
  by (intro HashSequential_Hash_total) (simp add: hashable_def)

lemma advance_add:
  "advance increment (j + k) st =
     (case advance increment j st of None \<Rightarrow> None | Some a \<Rightarrow> advance increment k a)"
  by (induction j arbitrary: st) (auto split: sum.splits prod.splits bool.splits)

text \<open>Every advancement that does not report exhaustion moves the family up in the
  counter and changes nothing but values.\<close>

lemma advance_progress:
  assumes "family_ok hs" and "\<forall>c \<in> set (Coefs hs). Op c \<noteq> 0"
    and "advance HashSequential_Increment k hs = Some a"
  shows "family_ok a \<and> family_pos hs + k \<le> family_pos a \<and> family_shape a = family_shape hs"
  using assms
proof (induction k arbitrary: hs)
  case 0
  then show ?case by simp
next
  case (Suc k)
  from Increment_step [OF Suc.prems(1)] Suc.prems(2) obtain dn hs1 where
    inc: "HashSequential_Increment hs = Inr (dn, hs1)"
    and sh: "family_shape hs1 = family_shape hs"
    and nd: "\<not> dn \<longrightarrow> family_ok hs1 \<and> family_pos hs < family_pos hs1"
    by blast
  from Suc.prems(3) inc have dn: "\<not> dn" and adv: "advance HashSequential_Increment k hs1 = Some a"
    by (auto split: if_splits bool.splits)
  from sh have "map shape (Coefs hs1) = map shape (Coefs hs)"
    by (simp add: family_shape_def)
  then have "map Op (Coefs hs1) = map Op (Coefs hs)" by (rule shape_Op)
  then have "Op ` set (Coefs hs1) = Op ` set (Coefs hs)"
    by (metis set_map)
  with Suc.prems(2) have ops: "\<forall>c \<in> set (Coefs hs1). Op c \<noteq> 0"
    by (metis image_iff)
  from nd dn have ok1: "family_ok hs1" and lt: "family_pos hs < family_pos hs1" by simp_all
  from Suc.IH [OF ok1 ops adv] sh lt show ?case by simp
qed

section \<open>Termination of the search and its number of attempts\<close>

text \<open>From a family in good order whose hash cannot fault, the attempt loop returns,
  with success or exhaustion, after at most as many attempts as there are positions
  left in the counter.\<close>

lemma attempt_loop_terminates:
  assumes "family_ok hs" and "hashable hs" and "\<forall>hv. unat (hv AND msk) < tblsz"
  shows "\<exists>n e phf' hs'.
     attempt_loop HashSequential_Hash HashSequential_Increment msk tblsz inputs hs k
       = Some (Inr (n, e, phf', hs'))
     \<and> (e = None \<or> e = Some ErrNoCoefficientsFound)
     \<and> k < n \<and> n + int (family_pos hs) \<le> k + int (search_space_size hs)"
  using assms(1,2)
proof (induction "search_space_size hs - family_pos hs" arbitrary: hs k rule: less_induct)
  case less
  have lt: "family_pos hs < search_space_size hs"
    using less.prems(1) by (rule family_pos_less)
  have "\<forall>kw. \<exists>v. HashSequential_Hash hs kw = Inr v"
    using less.prems(2) by (simp add: hashable_total)
  with assms(3) obtain ok tbl where
    att: "attempt HashSequential_Hash hs msk (replicate tblsz 0) inputs = Inr (ok, tbl)"
    using attempt_returns [of msk "replicate tblsz 0" HashSequential_Hash hs inputs]
    by auto
  show ?case
  proof (cases ok)
    case True
    with att lt show ?thesis
      by (subst attempt_loop.simps) simp
  next
    case nok: False
    from Increment_step [OF less.prems(1)] hashable_ops [OF less.prems(2)] obtain dn hs1 where
      inc: "HashSequential_Increment hs = Inr (dn, hs1)"
      and sp: "search_space_size hs1 = search_space_size hs"
      and sh: "family_shape hs1 = family_shape hs"
      and nd: "\<not> dn \<longrightarrow> family_ok hs1 \<and> family_pos hs < family_pos hs1"
      by blast
    show ?thesis
    proof (cases dn)
      case True
      with att nok inc lt show ?thesis
        by (subst attempt_loop.simps) simp
    next
      case False
      with nd have ok1: "family_ok hs1" and up: "family_pos hs < family_pos hs1"
        by simp_all
      have h1: "hashable hs1"
        using less.prems(2) sh by (simp add: hashable_shape)
      have lt1: "family_pos hs1 < search_space_size hs1"
        using ok1 by (rule family_pos_less)
      have "search_space_size hs1 - family_pos hs1 < search_space_size hs - family_pos hs"
        using sp up lt1 by simp
      from less.hyps [OF this ok1 h1, of "k + 1"] obtain n e phf' hs' where
        r: "attempt_loop HashSequential_Hash HashSequential_Increment msk tblsz inputs hs1 (k + 1)
              = Some (Inr (n, e, phf', hs'))"
          "e = None \<or> e = Some ErrNoCoefficientsFound"
          "k + 1 < n" "n + int (family_pos hs1) \<le> k + 1 + int (search_space_size hs1)"
        by blast
      have "attempt_loop HashSequential_Hash HashSequential_Increment msk tblsz inputs hs k
              = Some (Inr (n, e, phf', hs'))"
        using att nok inc False r(1) by (subst attempt_loop.simps) simp
      moreover have "k < n" using r(3) by simp
      moreover have "n + int (family_pos hs) \<le> k + int (search_space_size hs)"
        using r(4) sp up by simp
      ultimately show ?thesis using r(2) by blast
    qed
  qed
qed

text \<open>With keys that are not pairwise distinct, every attempt fails; from a regular
  family the loop runs through all positions that are left and reports exhaustion.\<close>

lemma attempt_loop_exhausts:
  assumes "family_ok hs" and "hashable hs" and "regular hs"
    and "\<forall>hv. unat (hv AND msk) < tblsz" and "\<not> distinct inputs"
  shows "\<exists>phf' hs'.
     attempt_loop HashSequential_Hash HashSequential_Increment msk tblsz inputs hs k
       = Some (Inr (k + int (search_space_size hs - family_pos hs), Some ErrNoCoefficientsFound,
                    phf', hs'))"
  using assms(1,2,3)
proof (induction "search_space_size hs - family_pos hs" arbitrary: hs k rule: less_induct)
  case less
  have lt: "family_pos hs < search_space_size hs"
    using less.prems(1) by (rule family_pos_less)
  have "\<forall>kw. \<exists>v. HashSequential_Hash hs kw = Inr v"
    using less.prems(2) by (simp add: hashable_total)
  with assms(4) obtain ok tbl where
    att: "attempt HashSequential_Hash hs msk (replicate tblsz 0) inputs = Inr (ok, tbl)"
    using attempt_returns [of msk "replicate tblsz 0" HashSequential_Hash hs inputs]
    by auto
  with assms(5) have nok: "\<not> ok"
    using attempt_duplicate [of inputs HashSequential_Hash hs msk "replicate tblsz 0" tbl]
    by auto
  from Increment_step [OF less.prems(1)] hashable_ops [OF less.prems(2)] less.prems(3)
  obtain dn hs1 where
    inc: "HashSequential_Increment hs = Inr (dn, hs1)"
    and sp: "search_space_size hs1 = search_space_size hs"
    and sh: "family_shape hs1 = family_shape hs"
    and nd: "\<not> dn \<longrightarrow> family_ok hs1 \<and> family_pos hs < family_pos hs1"
    and dn: "dn \<longleftrightarrow> Suc (family_pos hs) = search_space_size hs"
    and rg: "\<not> dn \<longrightarrow> regular hs1 \<and> family_pos hs1 = Suc (family_pos hs)"
    by blast
  show ?case
  proof (cases dn)
    case True
    with dn have "int (search_space_size hs - family_pos hs) = 1" by simp
    with att nok inc True show ?thesis
      by (subst attempt_loop.simps) simp
  next
    case False
    with nd rg have ok1: "family_ok hs1" and up: "family_pos hs1 = Suc (family_pos hs)"
      and r1: "regular hs1"
      by simp_all
    have h1: "hashable hs1"
      using less.prems(2) sh by (simp add: hashable_shape)
    have lt1: "family_pos hs1 < search_space_size hs1"
      using ok1 by (rule family_pos_less)
    have "search_space_size hs1 - family_pos hs1 < search_space_size hs - family_pos hs"
      using sp up lt1 by simp
    from less.hyps [OF this ok1 h1 r1, of "k + 1"] obtain phf' hs' where
      r: "attempt_loop HashSequential_Hash HashSequential_Increment msk tblsz inputs hs1 (k + 1)
            = Some (Inr (k + 1 + int (search_space_size hs1 - family_pos hs1),
                Some ErrNoCoefficientsFound, phf', hs'))"
      by blast
    have "k + 1 + int (search_space_size hs1 - family_pos hs1) = k + int (search_space_size hs - family_pos hs)"
      using sp up lt1 by simp
    with r have "attempt_loop HashSequential_Hash HashSequential_Increment msk tblsz inputs hs k
            = Some (Inr (k + int (search_space_size hs - family_pos hs),
                Some ErrNoCoefficientsFound, phf', hs'))"
      using att nok inc False by (subst attempt_loop.simps) simp
    then show ?thesis by blast
  qed
qed

section \<open>Configured families\<close>

lemma Coef_config_result:
  assumes "Coef_config c defaultMax = (None, c')"
  shows "Value c' = start_value c' \<and> Op c' \<noteq> 0 \<and> MaxValue c' \<noteq> 0"
  using assms
  by (auto simp add: Coef_config_def Let_def start_value_def OpAdd_def split: if_splits)

lemma config_coefs_result:
  "config_coefs cs defaultMax = (None, cs') \<Longrightarrow>
   length cs' = length cs \<and>
   (\<forall>c \<in> set cs'. Value c = start_value c \<and> Op c \<noteq> 0 \<and> MaxValue c \<noteq> 0)"
proof (induction cs arbitrary: cs')
  case Nil
  then show ?case by simp
next
  case (Cons c cs)
  obtain e c1 where c1: "Coef_config c defaultMax = (e, c1)"
    by (cases "Coef_config c defaultMax")
  obtain e' cs1 where cs1: "config_coefs cs defaultMax = (e', cs1)"
    by (cases "config_coefs cs defaultMax")
  from Cons.prems c1 cs1 have e: "e = None" "e' = None" and cs': "cs' = c1 # cs1"
    by (auto split: option.splits)
  from Coef_config_result [of c defaultMax c1] c1 e
  have "Value c1 = start_value c1 \<and> Op c1 \<noteq> 0 \<and> MaxValue c1 \<noteq> 0" by simp
  with Cons.IH [of cs1] cs1 e cs' show ?case by simp
qed

lemma ConfigCoefs_result:
  assumes "HashSequential_ConfigCoefs hs0 defaultMax = (None, hs)"
  shows "length (Coefs hs) = length (Coefs hs0) \<and>
     (\<forall>c \<in> set (LenCoef hs # Coefs hs).
        Value c = start_value c \<and> Op c \<noteq> 0 \<and> MaxValue c \<noteq> 0)"
proof -
  obtain e cs where cs: "config_coefs (Coefs hs0) defaultMax = (e, cs)"
    by (cases "config_coefs (Coefs hs0) defaultMax")
  obtain e' lc where lc: "Coef_config (LenCoef hs0) defaultMax = (e', lc)"
    by (cases "Coef_config (LenCoef hs0) defaultMax")
  from assms cs lc have e: "e = None" "e' = None"
    and hs: "hs = hs0\<lparr>Coefs := cs, LenCoef := lc\<rparr>"
    by (auto simp add: HashSequential_ConfigCoefs_def split: option.splits)
  from config_coefs_result [of "Coefs hs0" defaultMax cs] cs e
    Coef_config_result [of "LenCoef hs0" defaultMax lc] lc e hs
  show ?thesis by simp
qed

text \<open>A configured family whose ranges stay below the wrap-around bound is at the first
  position of the counter.\<close>

lemma digit_at_start:
  assumes "Value c = start_value c" and "in_bounds c"
  shows "digit_ok m c" and "digit_pos m c = 0"
  using assms start_value_pos [of c] start_value_bound [of c]
  by (simp_all add: digit_ok_def digit_pos_def)

lemma odometer_pos_start:
  "\<forall>c \<in> set cs. Value c = start_value c \<Longrightarrow> odometer_pos cs = 0"
  by (induction cs) (simp_all add: digit_pos_def)

lemma in_bounds_word:
  "in_bounds c \<longleftrightarrow> StartValue c < 2 ^ 63 \<and> MaxValue c < 2 ^ 63"
  by (simp add: in_bounds_def wrap_bound_def word_less_nat_alt)

lemma configured_start:
  assumes "HashSequential_ConfigCoefs hs0 defaultMax = (None, hs)"
    and "Coefs hs \<noteq> []"
    and "\<forall>c \<in> set (LenCoef hs # Coefs hs). StartValue c < 2 ^ 63 \<and> MaxValue c < 2 ^ 63"
  shows "family_ok hs" and "family_pos hs = 0"
proof -
  from ConfigCoefs_result [OF assms(1)]
  have v: "\<forall>c \<in> set (LenCoef hs # Coefs hs). Value c = start_value c" by simp
  from assms(3) have b: "\<forall>c \<in> set (LenCoef hs # Coefs hs). in_bounds c"
    by (simp add: in_bounds_word)
  show "family_ok hs"
    using v b assms(2) by (simp add: family_ok_def coefs_ok_def digit_at_start)
  show "family_pos hs = 0"
    using v b by (simp add: family_pos_def odometer_pos_start digit_at_start)
qed

section \<open>Searches that do not end\<close>

text \<open>A loop whose attempt fails on a hasher that its advancement leaves as it is never
  returns.\<close>

lemma attempt_loop_stuck:
  assumes "attempt hash st msk (replicate tblsz 0) inputs = Inr (False, t)"
    and "increment st = Inr (False, st)"
  shows "attempt_loop hash increment msk tblsz inputs st k = None"
proof (rule ccontr)
  assume "attempt_loop hash increment msk tblsz inputs st k \<noteq> None"
  then obtain y where "attempt_loop hash increment msk tblsz inputs st k = Some y"
    by auto
  then have "\<not> ((\<exists>t. attempt hash st msk (replicate tblsz 0) inputs = Inr (False, t))
      \<and> increment st = Inr (False, st))"
  proof (induction hash increment msk tblsz inputs st k y rule: attempt_loop_induct)
    case (step loop hash increment msk tblsz inputs st k y)
    show ?case
    proof
      assume a: "(\<exists>t. attempt hash st msk (replicate tblsz 0) inputs = Inr (False, t))
        \<and> increment st = Inr (False, st)"
      with step(2) have "loop hash increment msk tblsz inputs st (k + 1) = Some y"
        by auto
      from step(1) [OF this] a show False by simp
    qed
  qed
  with assms show False by blast
qed

lemma wrapping_family_configured:
  "HashSequential_ConfigCoefs wrapping_family_raw 16 = (None, wrapping_family)"
  by code_simp

lemma wrapping_family_Increment:
  "HashSequential_Increment wrapping_family = Inr (False, wrapped_family)"
  by code_simp

lemma wrapped_family_Increment:
  "HashSequential_Increment wrapped_family = Inr (False, wrapped_family)"
  by code_simp

lemma wrapping_family_diverges:
  assumes "attempt HashSequential_Hash wrapping_family 1 (replicate 2 0) inputs = Inr (False, t)"
    and "attempt HashSequential_Hash wrapped_family 1 (replicate 2 0) inputs = Inr (False, t')"
    and "inputs \<noteq> []"
  shows "Search phf wrapping_family 1 inputs = None"
proof -
  have "attempt_loop HashSequential_Hash HashSequential_Increment 1 2 inputs wrapped_family 1
      = None"
    using assms(2) wrapped_family_Increment by (rule attempt_loop_stuck)
  then have "attempt_loop HashSequential_Hash HashSequential_Increment 1 2 inputs
      wrapping_family 0 = None"
    using assms(1) wrapping_family_Increment
    by (subst attempt_loop.simps) simp
  then show ?thesis
    using assms(3) by (simp add: Search_def HashFinder_Search_def)
qed

section \<open>Termination, the bound on the attempts, and the order of the configurations\<close>

text \<open>
  C3. The claim, for every configured family with a byte-coefficient: the search
  terminates with success or exhaustion. It does not when a value wraps around (a
  doubling coefficient that starts at \<open>2 ^ 63\<close> becomes 0 and stays 0, never
  saturated), and it panics on an operation outside the three supported ones.
\<close>

theorem Search_termination_counterexample:
  "HashSequential_ConfigCoefs wrapping_family_raw 16 = (None, wrapping_family)
   \<and> Coefs wrapping_family \<noteq> []
   \<and> Search \<lparr>hashmap = []\<rparr> wrapping_family 1 [''a'', ''a''] = None
   \<and> HashSequential_ConfigCoefs \<lparr>LenCoef = coef0, Coefs = [coef0\<lparr>Op := 7\<rparr>]\<rparr> 4
       = (None, odd_op_family)
   \<and> Coefs odd_op_family \<noteq> []
   \<and> Search \<lparr>hashmap = []\<rparr> odd_op_family 1 [''a'', ''b'']
       = Some (Inl PanicUnsupportedOperation)"
proof -
  have "attempt HashSequential_Hash wrapping_family 1 (replicate 2 0) [''a'', ''a'']
      = Inr (False, [0, 1])"
    by code_simp
  moreover have "attempt HashSequential_Hash wrapped_family 1 (replicate 2 0) [''a'', ''a'']
      = Inr (False, [0, 1])"
    by code_simp
  ultimately have "Search \<lparr>hashmap = []\<rparr> wrapping_family 1 [''a'', ''a''] = None"
    by (rule wrapping_family_diverges) simp
  moreover have "HashSequential_ConfigCoefs \<lparr>LenCoef = coef0, Coefs = [coef0\<lparr>Op := 7\<rparr>]\<rparr> 4
       = (None, odd_op_family)"
    by code_simp
  moreover have "Search \<lparr>hashmap = []\<rparr> odd_op_family 1 [''a'', ''b'']
       = Some (Inl PanicUnsupportedOperation)"
    by code_simp
  ultimately show ?thesis
    using wrapping_family_configured
    by (simp add: wrapping_family_def odd_op_family_def)
qed

text \<open>
  C3, amended. For every configured family with a byte-coefficient, whose operations
  are supported, whose byte indexes are not the most negative \<^verbatim>\<open>int\<close> and whose start and
  maximum values are all below \<open>2 ^ 63\<close>, and for all valid arguments: \<^verbatim>\<open>Search\<close> returns,
  with success or with the exhaustion failure, and its attempt count is at least 1 and at
  most the product of the range sizes of the length coefficient and of the
  byte-coefficients, which is in turn at most the product of their inclusive ranges
  from start value to \<open>MaxValue\<close>.
\<close>

theorem Search_terminates_within_search_space:
  assumes "HashSequential_ConfigCoefs hs0 defaultMax = (None, hs)"
    and "Coefs hs \<noteq> []"
    and "\<forall>c \<in> set (Coefs hs). supported (Op c) \<and> IndexApplied c \<noteq> - (2 ^ 63)"
    and "\<forall>c \<in> set (LenCoef hs # Coefs hs). StartValue c < 2 ^ 63 \<and> MaxValue c < 2 ^ 63"
    and "0 < tableSizeBits" and "tableSizeBits \<le> 32" and "inputs \<noteq> []"
  shows "\<exists>n e phf' hs'.
     Search phf hs tableSizeBits inputs = Some (Inr (n, e, phf', hs'))
     \<and> (e = None \<or> e = Some ErrNoCoefficientsFound)
     \<and> 1 \<le> n \<and> n \<le> int (search_space_size hs)
     \<and> search_space_size hs \<le> prod_list (map inclusive_range (LenCoef hs # Coefs hs))"
proof -
  let ?msk = "(of_nat ((2 :: nat) ^ nat tableSizeBits) :: uint) - 1"
  let ?sz = "(2 :: nat) ^ nat tableSizeBits"
  have ok: "family_ok hs" and z: "family_pos hs = 0"
    using configured_start [OF assms(1,2,4)] by simp_all
  have h: "hashable hs"
    using assms(3) by (simp add: hashable_def)
  have m: "\<forall>hv. unat (hv AND ?msk) < ?sz"
    using mask_index_less [OF assms(5,6)] by blast
  from attempt_loop_terminates [OF ok h m, of inputs 0] z obtain n e phf' hs' where
    "attempt_loop HashSequential_Hash HashSequential_Increment ?msk ?sz inputs hs 0
       = Some (Inr (n, e, phf', hs'))"
    "e = None \<or> e = Some ErrNoCoefficientsFound" "0 < n" "n \<le> int (search_space_size hs)"
    by auto
  moreover have "Search phf hs tableSizeBits inputs
      = attempt_loop HashSequential_Hash HashSequential_Increment ?msk ?sz inputs hs 0"
    using assms(5,6,7) by (simp add: Search_def HashFinder_Search_def Let_def)
  ultimately show ?thesis
    using search_space_le_inclusive [of hs] by auto
qed

lemma small_family_configured:
  "HashSequential_ConfigCoefs \<lparr>LenCoef = coef0, Coefs = [coef0]\<rparr> 4 = (None, small_family)"
  by code_simp

theorem Search_terminates_within_search_space_witness:
  "HashSequential_ConfigCoefs \<lparr>LenCoef = coef0, Coefs = [coef0]\<rparr> 4 = (None, small_family)
   \<and> (\<exists>n e phf' hs'.
         Search \<lparr>hashmap = []\<rparr> small_family 2 [''a'', ''e'', ''ccc'']
           = Some (Inr (n, e, phf', hs'))
         \<and> (e = None \<or> e = Some ErrNoCoefficientsFound)
         \<and> 1 \<le> n \<and> n \<le> int (search_space_size small_family))"
proof -
  have a: "Coefs small_family \<noteq> []"
    by (simp add: small_family_def)
  have b: "\<forall>c \<in> set (Coefs small_family). supported (Op c) \<and> IndexApplied c \<noteq> - (2 ^ 63)"
    by (simp add: small_family_def coef0_def supported_def)
  have c: "\<forall>c \<in> set (LenCoef small_family # Coefs small_family).
         StartValue c < 2 ^ 63 \<and> MaxValue c < 2 ^ 63"
    by (simp add: small_family_def coef0_def)
  have d: "(0 :: int) < 2" "(2 :: int) \<le> 32" "[''a'', ''e'', ''ccc''] \<noteq> []"
    by simp_all
  from Search_terminates_within_search_space [OF small_family_configured a b c d]
    small_family_configured
  show ?thesis by blast
qed

text \<open>
  C2. The claim, for every configured family with a byte-coefficient and inputs with a
  duplicate: the search runs until the odometer is exhausted and fails with an attempt
  count equal to the size of the search space. A family whose doubling coefficient wraps
  around to 0 is searched for ever; an unsupported operation panics; and the count falls
  short of the product of the ranges when the last of several byte-coefficients starts
  saturated (the length coefficient is then advanced by every call of \<^verbatim>\<open>Increment\<close>) or
  when the length coefficient starts above its maximum (the first call reports
  exhaustion).
\<close>

theorem Search_duplicates_counterexample:
  "HashSequential_ConfigCoefs wrapping_family_raw 16 = (None, wrapping_family)
   \<and> Search \<lparr>hashmap = []\<rparr> wrapping_family 1 [''if'', ''if''] = None
   \<and> HashSequential_ConfigCoefs \<lparr>LenCoef = coef0, Coefs = [coef0\<lparr>Op := 7\<rparr>]\<rparr> 4
       = (None, odd_op_family)
   \<and> Search \<lparr>hashmap = []\<rparr> odd_op_family 1 [''if'', ''if'']
       = Some (Inl PanicUnsupportedOperation)
   \<and> HashSequential_ConfigCoefs
        \<lparr>LenCoef = coef0, Coefs = [coef0\<lparr>MaxValue := 16\<rparr>, coef0\<lparr>MaxValue := 1\<rparr>]\<rparr> 4
       = (None, saturated_last_family)
   \<and> returned (Search \<lparr>hashmap = []\<rparr> saturated_last_family 1 [''if'', ''if''])
       = Some (Inr (4, Some ErrNoCoefficientsFound))
   \<and> search_space_size saturated_last_family = 60
   \<and> HashSequential_ConfigCoefs
        \<lparr>LenCoef = coef0\<lparr>StartValue := 5, MaxValue := 3\<rparr>, Coefs = [coef0\<lparr>MaxValue := 16\<rparr>]\<rparr> 4
       = (None, late_length_family)
   \<and> returned (Search \<lparr>hashmap = []\<rparr> late_length_family 1 [''if'', ''if''])
       = Some (Inr (1, Some ErrNoCoefficientsFound))
   \<and> search_space_size late_length_family = 15"
proof -
  have "attempt HashSequential_Hash wrapping_family 1 (replicate 2 0) [''if'', ''if'']
      = Inr (False, [1, 0])"
    by code_simp
  moreover have "attempt HashSequential_Hash wrapped_family 1 (replicate 2 0) [''if'', ''if'']
      = Inr (False, [1, 0])"
    by code_simp
  ultimately have "Search \<lparr>hashmap = []\<rparr> wrapping_family 1 [''if'', ''if''] = None"
    by (rule wrapping_family_diverges) simp
  moreover have "HashSequential_ConfigCoefs \<lparr>LenCoef = coef0, Coefs = [coef0\<lparr>Op := 7\<rparr>]\<rparr> 4
       = (None, odd_op_family)"
    by code_simp
  moreover have "Search \<lparr>hashmap = []\<rparr> odd_op_family 1 [''if'', ''if'']
       = Some (Inl PanicUnsupportedOperation)"
    by code_simp
  moreover have "HashSequential_ConfigCoefs
        \<lparr>LenCoef = coef0, Coefs = [coef0\<lparr>MaxValue := 16\<rparr>, coef0\<lparr>MaxValue := 1\<rparr>]\<rparr> 4
       = (None, saturated_last_family)"
    by code_simp
  moreover have "returned (Search \<lparr>hashmap = []\<rparr> saturated_last_family 1 [''if'', ''if''])
       = Some (Inr (4, Some ErrNoCoefficientsFound))"
    by code_simp
  moreover have "search_space_size saturated_last_family = 60"
    by code_simp
  moreover have "HashSequential_ConfigCoefs
        \<lparr>LenCoef = coef0\<lparr>StartValue := 5, MaxValue := 3\<rparr>, Coefs = [coef0\<lparr>MaxValue := 16\<rparr>]\<rparr> 4
       = (None, late_length_family)"
    by code_simp
  moreover have "returned (Search \<lparr>hashmap = []\<rparr> late_length_family 1 [''if'', ''if''])
       = Some (Inr (1, Some ErrNoCoefficientsFound))"
    by code_simp
  moreover have "search_space_size late_length_family = 15"
    by code_simp
  ultimately show ?thesis
    using wrapping_family_configured by blast
qed

text \<open>
  C2, amended. For every configured family with a byte-coefficient, whose operations
  are supported, whose byte indexes are not the most negative \<^verbatim>\<open>int\<close>, whose start and
  maximum values are all below \<open>2 ^ 63\<close>, whose last byte-coefficient is the only one or
  does not start saturated, and whose length coefficient starts at or below its maximum;
  for every valid \<open>tableSizeBits\<close> and all inputs with a duplicate: every attempt, on
  whatever values, meets a collision, and \<^verbatim>\<open>Search\<close> returns the failure
  \<^verbatim>\<open>ErrNoCoefficientsFound\<close> with an attempt count equal to the product of the
  coefficients' range sizes.
\<close>

theorem Search_duplicates_exhaust_search_space:
  assumes "HashSequential_ConfigCoefs hs0 defaultMax = (None, hs)"
    and "Coefs hs \<noteq> []"
    and "\<forall>c \<in> set (Coefs hs). supported (Op c) \<and> IndexApplied c \<noteq> - (2 ^ 63)"
    and "\<forall>c \<in> set (LenCoef hs # Coefs hs). StartValue c < 2 ^ 63 \<and> MaxValue c < 2 ^ 63"
    and "length (Coefs hs) = 1 \<or> \<not> Coef_Saturated (last (Coefs hs))"
    and "Value (LenCoef hs) \<le> MaxValue (LenCoef hs)"
    and "0 < tableSizeBits" and "tableSizeBits \<le> 32" and "\<not> distinct inputs"
  shows "(\<exists>phf' hs'. Search phf hs tableSizeBits inputs
            = Some (Inr (int (search_space_size hs), Some ErrNoCoefficientsFound, phf', hs')))
     \<and> (\<forall>h :: HashSequential.
           (\<forall>c \<in> set (Coefs h). supported (Op c) \<and> IndexApplied c \<noteq> - (2 ^ 63)) \<longrightarrow>
           (\<exists>t. attempt HashSequential_Hash h (of_nat (2 ^ nat tableSizeBits) - 1)
                   (replicate (2 ^ nat tableSizeBits) 0) inputs = Inr (False, t)))"
proof -
  let ?msk = "(of_nat ((2 :: nat) ^ nat tableSizeBits) :: uint) - 1"
  let ?sz = "(2 :: nat) ^ nat tableSizeBits"
  have ok: "family_ok hs" and z: "family_pos hs = 0"
    using configured_start [OF assms(1,2,4)] by simp_all
  have h: "hashable hs"
    using assms(3) by (simp add: hashable_def)
  have m: "\<forall>hv. unat (hv AND ?msk) < ?sz"
    using mask_index_less [OF assms(7,8)] by blast
  from assms(9) have ne: "inputs \<noteq> []" by auto
  have "Value (last (Coefs hs)) = start_value (last (Coefs hs))"
    using ConfigCoefs_result [OF assms(1)] assms(2) by simp
  then have "Coef_Saturated (Coef_init (last (Coefs hs))) = Coef_Saturated (last (Coefs hs))"
    by (simp add: Coef_Saturated_def)
  with assms(5,6) have r: "regular hs"
    by (auto simp add: regular_def)
  from attempt_loop_exhausts [OF ok h r m assms(9), of 0] z obtain phf' hs' where
    "attempt_loop HashSequential_Hash HashSequential_Increment ?msk ?sz inputs hs 0
       = Some (Inr (int (search_space_size hs), Some ErrNoCoefficientsFound, phf', hs'))"
    by auto
  moreover have "Search phf hs tableSizeBits inputs
      = attempt_loop HashSequential_Hash HashSequential_Increment ?msk ?sz inputs hs 0"
    using assms(7,8) ne by (simp add: Search_def HashFinder_Search_def Let_def)
  ultimately have first: "\<exists>phf' hs'. Search phf hs tableSizeBits inputs
            = Some (Inr (int (search_space_size hs), Some ErrNoCoefficientsFound, phf', hs'))"
    by auto
  have "\<forall>h :: HashSequential.
           (\<forall>c \<in> set (Coefs h). supported (Op c) \<and> IndexApplied c \<noteq> - (2 ^ 63)) \<longrightarrow>
           (\<exists>t. attempt HashSequential_Hash h ?msk (replicate ?sz 0) inputs = Inr (False, t))"
  proof (intro allI impI)
    fix h :: HashSequential
    assume "\<forall>c \<in> set (Coefs h). supported (Op c) \<and> IndexApplied c \<noteq> - (2 ^ 63)"
    then have "\<forall>kw. \<exists>v. HashSequential_Hash h kw = Inr v"
      by (simp add: hashable_total hashable_def)
    with m obtain ok t where
      att: "attempt HashSequential_Hash h ?msk (replicate ?sz 0) inputs = Inr (ok, t)"
      using attempt_returns [of ?msk "replicate ?sz 0" HashSequential_Hash h inputs]
      by auto
    with assms(9) have "\<not> ok"
      using attempt_duplicate [of inputs HashSequential_Hash h ?msk "replicate ?sz 0" t]
      by auto
    with att show "\<exists>t. attempt HashSequential_Hash h ?msk (replicate ?sz 0) inputs = Inr (False, t)"
      by auto
  qed
  with first show ?thesis by blast
qed

theorem Search_duplicates_exhaust_search_space_witness:
  "HashSequential_ConfigCoefs \<lparr>LenCoef = coef0, Coefs = [coef0]\<rparr> 4 = (None, small_family)
   \<and> search_space_size small_family = 12
   \<and> (\<exists>phf' hs'. Search \<lparr>hashmap = []\<rparr> small_family 2 [''if'', ''do'', ''if'']
          = Some (Inr (12, Some ErrNoCoefficientsFound, phf', hs')))"
proof -
  have a: "Coefs small_family \<noteq> []"
    by (simp add: small_family_def)
  have b: "\<forall>c \<in> set (Coefs small_family). supported (Op c) \<and> IndexApplied c \<noteq> - (2 ^ 63)"
    by (simp add: small_family_def coef0_def supported_def)
  have c: "\<forall>c \<in> set (LenCoef small_family # Coefs small_family).
         StartValue c < 2 ^ 63 \<and> MaxValue c < 2 ^ 63"
    by (simp add: small_family_def coef0_def)
  have d: "length (Coefs small_family) = 1 \<or> \<not> Coef_Saturated (last (Coefs small_family))"
    by (simp add: small_family_def)
  have e: "Value (LenCoef small_family) \<le> MaxValue (LenCoef small_family)"
    by (simp add: small_family_def coef0_def)
  have f: "(0 :: int) < 2" "(2 :: int) \<le> 32" "\<not> distinct [''if'', ''do'', ''if'']"
    by simp_all
  have s: "search_space_size small_family = 12"
    by code_simp
  from Search_duplicates_exhaust_search_space [OF small_family_configured a b c d e f]
    small_family_configured s
  show ?thesis by simp
qed

text \<open>
  C5. The claim, from any configured state: repeated advancement never produces a tuple
  of coefficient values that was visited before, until \<^verbatim>\<open>Increment\<close> reports done. A
  doubling coefficient that starts at \<open>2 ^ 63\<close> wraps around to 0 at the first
  advancement and is 0 again after the second; neither call reports done.
\<close>

theorem Increment_revisits_counterexample:
  "HashSequential_ConfigCoefs wrapping_family_raw 16 = (None, wrapping_family)
   \<and> advance HashSequential_Increment 1 wrapping_family = Some wrapped_family
   \<and> advance HashSequential_Increment 2 wrapping_family = Some wrapped_family"
  by code_simp

text \<open>
  C5, amended. From any configured state whose start and maximum values are all below
  \<open>2 ^ 63\<close>: the families reached by \<open>j\<close> and by \<open>k\<close> advancements, \<open>j < k\<close>, none of which
  reported done, differ in their coefficient values (those of the byte-coefficients
  together with that of the length coefficient).
\<close>

theorem Increment_never_revisits:
  assumes "HashSequential_ConfigCoefs hs0 defaultMax = (None, hs)"
    and "\<forall>c \<in> set (LenCoef hs # Coefs hs). StartValue c < 2 ^ 63 \<and> MaxValue c < 2 ^ 63"
    and "advance HashSequential_Increment j hs = Some a"
    and "advance HashSequential_Increment k hs = Some b"
    and "j < k"
  shows "coef_values a \<noteq> coef_values b"
proof (cases "Coefs hs = []")
  case True
  from assms(5) obtain k' where "k = Suc k'" by (cases k) auto
  with assms(4) True show ?thesis
    by (simp add: HashSequential_Increment_def)
next
  case False
  have ok: "family_ok hs"
    using configured_start [OF assms(1) False assms(2)] by simp
  have ops: "\<forall>c \<in> set (Coefs hs). Op c \<noteq> 0"
    using ConfigCoefs_result [OF assms(1)] by simp
  from advance_progress [OF ok ops assms(3)]
  have oka: "family_ok a" and sha: "family_shape a = family_shape hs"
    by simp_all
  from sha have "map shape (Coefs a) = map shape (Coefs hs)"
    by (simp add: family_shape_def)
  then have "map Op (Coefs a) = map Op (Coefs hs)" by (rule shape_Op)
  then have "Op ` set (Coefs a) = Op ` set (Coefs hs)"
    by (metis set_map)
  with ops have opsa: "\<forall>c \<in> set (Coefs a). Op c \<noteq> 0"
    by (metis image_iff)
  from assms(5) have kj: "j + (k - j) = k" by simp
  have "advance HashSequential_Increment (j + (k - j)) hs
      = (case advance HashSequential_Increment j hs of None \<Rightarrow> None
         | Some a \<Rightarrow> advance HashSequential_Increment (k - j) a)"
    by (rule advance_add)
  with assms(3,4) kj have "advance HashSequential_Increment (k - j) a = Some b"
    by simp
  from advance_progress [OF oka opsa this]
  have le: "family_pos a + (k - j) \<le> family_pos b" and shb: "family_shape b = family_shape a"
    by simp_all
  from le assms(5) have lt: "family_pos a < family_pos b"
    by arith
  show ?thesis
  proof
    assume v: "coef_values a = coef_values b"
    from shb have s1: "map shape (Coefs b) = map shape (Coefs a)"
      and s2: "map shape [LenCoef b] = map shape [LenCoef a]"
      by (simp_all add: family_shape_def)
    from v have v1: "map Value (Coefs b) = map Value (Coefs a)"
      and v2: "map Value [LenCoef b] = map Value [LenCoef a]"
      by (simp_all add: coef_values_def)
    from s1 v1 have "Coefs b = Coefs a" by (rule shape_Value_eq)
    moreover from s2 v2 have "[LenCoef b] = [LenCoef a]" by (rule shape_Value_eq)
    ultimately have "family_pos b = family_pos a"
      by (simp add: family_pos_def)
    with lt show False by simp
  qed
qed

theorem Increment_never_revisits_witness:
  "HashSequential_ConfigCoefs \<lparr>LenCoef = coef0, Coefs = [coef0]\<rparr> 4 = (None, small_family)
   \<and> coef_values (the (advance HashSequential_Increment 2 small_family)) = ([3], 1)
   \<and> coef_values (the (advance HashSequential_Increment 3 small_family)) = ([1], 2)
   \<and> coef_values (the (advance HashSequential_Increment 2 small_family))
       \<noteq> coef_values (the (advance HashSequential_Increment 3 small_family))"
proof -
  have c: "\<forall>c \<in> set (LenCoef small_family # Coefs small_family).
         StartValue c < 2 ^ 63 \<and> MaxValue c < 2 ^ 63"
    by (simp add: small_family_def coef0_def)
  have a2: "advance HashSequential_Increment 2 small_family
      = Some (small_family\<lparr>Coefs := [coef0\<lparr>Value := 3, MaxValue := 4, Op := OpAdd\<rparr>]\<rparr>)"
    by code_simp
  have a3: "advance HashSequential_Increment 3 small_family
      = Some (small_family\<lparr>LenCoef := coef0\<lparr>Value := 2, MaxValue := 4, Op := OpAdd\<rparr>\<rparr>)"
    by code_simp
  have lt: "(2 :: nat) < 3" by simp
  from Increment_never_revisits [OF small_family_configured c a2 a3 lt]
    small_family_configured a2 a3
  show ?thesis
    by (simp add: coef_values_def small_family_def coef0_def)
qed


section \<open>The success-probability estimate and the example of the package\<close>

text \<open>The example of the package calls \<^verbatim>\<open>SearchSuccessProbability\<close> for the 25 keywords of
  Go and a table of \<open>2 ^ 6\<close> slots and expects \<^verbatim>\<open>98.86%\<close> to be printed. The product of
  the spec is below half a percent for these arguments, so it is not what this function
  returns there; without the source of the function, what it returns is not
  settled here.\<close>

lemma collision_free_product_example:
  "(43 / 10000 :: 'a :: linordered_field) < collision_free_product (2 ^ 6) 25
   \<and> (collision_free_product (2 ^ 6) 25 :: 'a :: linordered_field) < 44 / 10000"
proof -
  have u: "[0..<25] = [0, 1, 2, 3, 4, 5, 6, 7, 8, 9, 10, 11, 12, 13, 14, 15, 16, 17, 18, 19,
      20, 21, 22, 23, 24 :: nat]"
    by code_simp
  show ?thesis
    unfolding collision_free_product_def u by simp
qed

end
